theory Spec2Isabelle
  imports Complex_Main "HOL-Library.AList" "HOL-Library.Multiset"
begin

text \<open>
  A shallow embedding of the converter from place files to project trees: the name
  normalizer (\<open>utils.py\<close>), the property decoder and the two-pass graph parser
  (\<open>roblox_parser.py\<close>) and the project emitter (\<open>rojo_project_generator.py\<close>), with the
  properties proved of them. Exceptions are values of type \<open>error\<close>; a function that can
  raise returns \<open>error + 'a\<close>. The emitter runs on an explicit file system. The XML and
  number-parsing libraries are outside the converter: a document is an element tree, and
  the parsing functions are parameters.
\<close>

section \<open>Strings\<close>

text \<open>
  A Python string is modelled as a \<^typ>\<open>string\<close>: one \<^typ>\<open>char\<close> per code point, for
  code points below 256.
\<close>

definition valid_chars :: string where
  "valid_chars = ''-_.() abcdefghijklmnopqrstuvwxyzABCDEFGHIJKLMNOPQRSTUVWXYZ0123456789''"

definition py_isspace :: "char \<Rightarrow> bool" where
  "py_isspace c = (let n = (of_char c :: nat) in
     (9 \<le> n \<and> n \<le> 13) \<or> (28 \<le> n \<and> n \<le> 32) \<or> n = 133 \<or> n = 160)"

definition strip_where :: "(char \<Rightarrow> bool) \<Rightarrow> string \<Rightarrow> string" where
  "strip_where P s = rev (dropWhile P (rev (dropWhile P s)))"

definition normalize_name :: "string \<Rightarrow> string" where
  "normalize_name name =
     (let normalized = map (\<lambda>c. if c \<in> set valid_chars then c else CHR ''_'') name;
          normalized = strip_where py_isspace (strip_where (\<lambda>c. c = CHR ''_'') normalized)
      in if normalized = [] then ''unnamed'' else normalized)"

definition py_lower_char :: "char \<Rightarrow> char" where
  "py_lower_char c = (let n = (of_char c :: nat) in
     if (65 \<le> n \<and> n \<le> 90) \<or> (192 \<le> n \<and> n \<le> 222 \<and> n \<noteq> 215)
     then char_of (n + 32) else c)"

definition py_lower :: "string \<Rightarrow> string" where
  "py_lower s = map py_lower_char s"

section \<open>XML elements\<close>

text \<open>
  An element as the XML library presents it: tag, attributes, the text before the first
  child (\<open>None\<close> when there is none) and the child elements in document order. Comments and
  processing instructions are not part of the model.
\<close>

datatype xml = Elem (xtag: string) (xattrs: "(string \<times> string) list")
  (xtext: "string option") (xkids: "xml list")

definition xget :: "xml \<Rightarrow> string \<Rightarrow> string option" where
  "xget e k = map_of (xattrs e) k"

definition xfind :: "xml \<Rightarrow> string \<Rightarrow> xml option" where
  "xfind e t = List.find (\<lambda>k. xtag k = t) (xkids e)"

definition xfindall :: "xml \<Rightarrow> string \<Rightarrow> xml list" where
  "xfindall e t = filter (\<lambda>k. xtag k = t) (xkids e)"

text \<open>\<open>e.findall('.//t')\<close>: the proper descendants with tag \<open>t\<close>, in document order.\<close>

fun xdescendants :: "string \<Rightarrow> xml \<Rightarrow> xml list" where
  "xdescendants t (Elem tg as tx ks) =
     concat (map (\<lambda>k. (if xtag k = t then [k] else []) @ xdescendants t k) ks)"

text \<open>The elements in the order a streaming parse ends them: children before parents.\<close>

fun end_events :: "xml \<Rightarrow> xml list" where
  "end_events (Elem tg as tx ks) = concat (map end_events ks) @ [Elem tg as tx ks]"

section \<open>Property values and the property decoder\<close>

datatype error = AttributeError | TypeError | ValueError | RecursionError
  | FileNotFoundError | NotADirectoryError | IsADirectoryError | FileExistsError

text \<open>
  A decoded value. A dictionary is an association list in insertion order. The type \<open>'f\<close>
  is the type of floating-point numbers.
\<close>

datatype 'f pyval = VStr string | VInt int | VFloat 'f | VBool bool
  | VDict "(string \<times> 'f pyval) list"

text \<open>
  The library functions the decoder calls: \<open>int(s)\<close> and \<open>float(s)\<close> on a non-empty
  string (\<open>None\<close> when they raise \<open>ValueError\<close>), \<open>float(0)\<close>,
  \<open>base64.b64decode(s).decode('utf-8')\<close> (\<open>None\<close> when either step raises) and
  \<open>etree.tostring(e, encoding='unicode')\<close>.
\<close>

record 'f pylib =
  py_int :: "string \<Rightarrow> int option"
  py_float :: "string \<Rightarrow> 'f option"
  float_zero :: 'f
  b64decode_utf8 :: "string \<Rightarrow> string option"
  tostring :: "xml \<Rightarrow> string"

definition text_or :: "string option \<Rightarrow> string \<Rightarrow> string" where
  "text_or t d = (case t of None \<Rightarrow> d | Some s \<Rightarrow> if s = [] then d else s)"

definition int_of_text :: "'f pylib \<Rightarrow> string option \<Rightarrow> error + 'f pyval" where
  "int_of_text L t = (case t of None \<Rightarrow> Inr (VInt 0)
     | Some s \<Rightarrow> if s = [] then Inr (VInt 0)
         else (case py_int L s of None \<Rightarrow> Inl ValueError | Some n \<Rightarrow> Inr (VInt n)))"

definition float_of_text :: "'f pylib \<Rightarrow> string option \<Rightarrow> error + 'f pyval" where
  "float_of_text L t = (case t of None \<Rightarrow> Inr (VFloat (float_zero L))
     | Some s \<Rightarrow> if s = [] then Inr (VFloat (float_zero L))
         else (case py_float L s of None \<Rightarrow> Inl ValueError | Some x \<Rightarrow> Inr (VFloat x)))"

definition decode_base64 :: "'f pylib \<Rightarrow> string option \<Rightarrow> 'f pyval" where
  "decode_base64 L t = (case t of None \<Rightarrow> VStr []
     | Some s \<Rightarrow> if s = [] then VStr []
         else (case b64decode_utf8 L s of Some decoded \<Rightarrow> VStr decoded | None \<Rightarrow> VStr s))"

fun cframe_components :: "'f pylib \<Rightarrow> xml list \<Rightarrow> (string \<times> 'f pyval) list
    \<Rightarrow> error + (string \<times> 'f pyval) list" where
  "cframe_components L [] components = Inr components"
| "cframe_components L (component # rest) components =
     (case float_of_text L (xtext component) of Inl e \<Rightarrow> Inl e
      | Inr v \<Rightarrow> cframe_components L rest (AList.update (xtag component) v components))"

definition bind_err :: "error + 'a \<Rightarrow> ('a \<Rightarrow> error + 'b) \<Rightarrow> error + 'b" where
  "bind_err m f = (case m of Inl e \<Rightarrow> Inl e | Inr x \<Rightarrow> f x)"

definition float_or_zero :: "'f pylib \<Rightarrow> xml option \<Rightarrow> error + 'f pyval" where
  "float_or_zero L x = (case x of None \<Rightarrow> Inr (VInt 0) | Some xe \<Rightarrow> float_of_text L (xtext xe))"

definition extract_property_value :: "'f pylib \<Rightarrow> xml \<Rightarrow> error + 'f pyval" where
  "extract_property_value L prop_elem =
    (let tag = xtag prop_elem; text = xtext prop_elem in
     if tag = ''string'' then Inr (VStr (text_or text []))
     else if tag = ''int'' \<or> tag = ''int64'' then int_of_text L text
     else if tag = ''float'' \<or> tag = ''double'' then float_of_text L text
     else if tag = ''bool'' then
       (case text of None \<Rightarrow> Inl AttributeError
        | Some s \<Rightarrow> Inr (VBool (py_lower s = ''true'')))
     else if tag = ''Content'' then Inr (VStr (text_or text []))
     else if tag = ''BinaryString'' then Inr (decode_base64 L text)
     else if tag = ''ProtectedString'' then Inr (decode_base64 L text)
     else if tag = ''UniqueId'' then Inr (VStr (text_or text []))
     else if tag = ''SecurityCapabilities'' then Inr (VStr (text_or text ''0''))
     else if tag = ''Ref'' then Inr (VStr (text_or text ''null''))
     else if tag = ''token'' then int_of_text L text
     else if tag = ''Color3'' \<or> tag = ''Color3uint8'' then
       (case (xfind prop_elem ''R'', xfind prop_elem ''G'', xfind prop_elem ''B'') of
          (Some r, Some g, Some b) \<Rightarrow>
            bind_err (float_of_text L (xtext r)) (\<lambda>rv.
            bind_err (float_of_text L (xtext g)) (\<lambda>gv.
            bind_err (float_of_text L (xtext b)) (\<lambda>bv.
              Inr (VDict [(''R'', rv), (''G'', gv), (''B'', bv)]))))
        | _ \<Rightarrow> Inr (VDict [(''R'', VInt 0), (''G'', VInt 0), (''B'', VInt 0)]))
     else if tag = ''Vector2'' \<or> tag = ''Vector3'' then
       (let x = xfind prop_elem ''X'';
            y = xfind prop_elem ''Y'';
            z = (if tag = ''Vector3'' then xfind prop_elem ''Z'' else None) in
        bind_err (float_or_zero L x) (\<lambda>xv.
        bind_err (float_or_zero L y) (\<lambda>yv.
          (case z of None \<Rightarrow> Inr (VDict [(''X'', xv), (''Y'', yv)])
           | Some ze \<Rightarrow>
               bind_err (float_of_text L (xtext ze)) (\<lambda>zv.
                 Inr (VDict [(''X'', xv), (''Y'', yv), (''Z'', zv)]))))))
     else if tag = ''CFrame'' \<or> tag = ''CoordinateFrame'' then
       bind_err (cframe_components L (xkids prop_elem) []) (\<lambda>components.
         Inr (VDict components))
     else if tag = ''PhysicalProperties'' then
       (case xfind prop_elem ''CustomPhysics'' of None \<Rightarrow> Inl AttributeError
        | Some cp \<Rightarrow>
            (case xtext cp of None \<Rightarrow> Inl AttributeError
             | Some s \<Rightarrow> Inr (VDict [(''CustomPhysics'', VBool (py_lower s = ''true''))])))
     else Inr (VStr (tostring L prop_elem)))"

text \<open>
  A small instance of the library, for evaluating the model on concrete documents: it
  reads a non-empty string of decimal digits as that number and rejects every other text.
  Only the closed examples use it; the general theorems hold for every library.
\<close>

fun digits_value :: "string \<Rightarrow> nat \<Rightarrow> nat option" where
  "digits_value [] acc = Some acc"
| "digits_value (c # cs) acc =
     (let n = (of_char c :: nat) in
      if 48 \<le> n \<and> n \<le> 57 then digits_value cs (10 * acc + (n - 48)) else None)"

definition digits_lib :: "real pylib" where
  "digits_lib = \<lparr> py_int = (\<lambda>s. if s = [] then None else map_option int (digits_value s 0)),
      py_float = (\<lambda>s. if s = [] then None else map_option real (digits_value s 0)),
      float_zero = 0,
      b64decode_utf8 = (\<lambda>s. None),
      tostring = (\<lambda>e. xtag e) \<rparr>"

section \<open>Graph parser\<close>

text \<open>
  A node of the graph. The node map is a dictionary in insertion order: an association
  list whose keys are distinct, updated in place.
\<close>

record 'f inst =
  inst_class :: string
  referent :: string
  properties :: "(string option \<times> 'f pyval) list"
  children :: "string list"
  parent :: "string option"

type_synonym 'f instances = "(string \<times> 'f inst) list"

record 'f game_data =
  name :: "'f pyval"
  instances :: "'f instances"
  root_instances :: "string list"

definition new_instance :: "string \<Rightarrow> string \<Rightarrow> 'f inst" where
  "new_instance class_name ref_id =
     \<lparr>inst_class = class_name, referent = ref_id, properties = [], children = [],
      parent = None\<rparr>"

text \<open>First pass: one step per ended element.\<close>

definition first_pass_step :: "xml \<Rightarrow> 'f instances \<Rightarrow> 'f instances" where
  "first_pass_step elem insts =
     (if xtag elem = ''Item'' then
        (case (xget elem ''referent'', xget elem ''class'') of
           (Some ref_id, Some class_name) \<Rightarrow>
             if ref_id \<noteq> [] \<and> class_name \<noteq> []
             then AList.update ref_id (new_instance class_name ref_id) insts
             else insts
         | _ \<Rightarrow> insts)
      else insts)"

definition first_pass :: "xml \<Rightarrow> 'f instances" where
  "first_pass doc = fold first_pass_step (end_events doc) []"

text \<open>Second pass: the properties of one item, then its direct child items.\<close>

fun extract_properties :: "'f pylib \<Rightarrow> string \<Rightarrow> xml list \<Rightarrow> 'f instances
    \<Rightarrow> error + 'f instances" where
  "extract_properties L ref_id [] insts = Inr insts"
| "extract_properties L ref_id (prop_elem # rest) insts =
     (case extract_property_value L prop_elem of
        Inl e \<Rightarrow> Inl e
      | Inr prop_value \<Rightarrow>
          extract_properties L ref_id rest
            (AList.map_entry ref_id
               (\<lambda>i. i\<lparr>properties :=
                  AList.update (xget prop_elem ''name'') prop_value (properties i)\<rparr>)
               insts))"

fun link_children :: "string \<Rightarrow> xml list \<Rightarrow> 'f instances \<times> string set
    \<Rightarrow> 'f instances \<times> string set" where
  "link_children ref_id [] st = st"
| "link_children ref_id (child_item # rest) (insts, child_instances) =
     (case xget child_item ''referent'' of
        None \<Rightarrow> link_children ref_id rest (insts, child_instances)
      | Some child_ref \<Rightarrow>
          if map_of insts child_ref \<noteq> None then
            link_children ref_id rest
              (AList.map_entry child_ref (\<lambda>i. i\<lparr>parent := Some ref_id\<rparr>)
                 (AList.map_entry ref_id (\<lambda>i. i\<lparr>children := children i @ [child_ref]\<rparr>)
                    insts),
               insert child_ref child_instances)
          else link_children ref_id rest (insts, child_instances))"

fun second_pass :: "'f pylib \<Rightarrow> xml list \<Rightarrow> 'f instances \<times> string set
    \<Rightarrow> error + 'f instances \<times> string set" where
  "second_pass L [] st = Inr st"
| "second_pass L (item_elem # rest) (insts, child_instances) =
     (case xget item_elem ''referent'' of
        None \<Rightarrow> second_pass L rest (insts, child_instances)
      | Some ref_id \<Rightarrow>
          if map_of insts ref_id = None then second_pass L rest (insts, child_instances)
          else
            (case (case xfind item_elem ''Properties'' of
                     None \<Rightarrow> Inr insts
                   | Some properties_elem \<Rightarrow>
                       extract_properties L ref_id (xkids properties_elem) insts) of
               Inl e \<Rightarrow> Inl e
             | Inr insts' \<Rightarrow>
                 second_pass L rest
                   (link_children ref_id (xfindall item_elem ''Item'')
                      (insts', child_instances))))"

definition find_roots :: "'f instances \<Rightarrow> string set \<Rightarrow> string list" where
  "find_roots insts child_instances =
     map fst (filter (\<lambda>(ref_id, inst).
        ref_id \<notin> child_instances \<and> parent inst = None) insts)"

definition names_of_class :: "string \<Rightarrow> 'f inst list \<Rightarrow> 'f pyval list" where
  "names_of_class c is =
     List.map_filter (\<lambda>i. if inst_class i = c then map_of (properties i) (Some ''Name'')
                           else None) is"

definition get_game_name :: "string \<Rightarrow> 'f instances \<Rightarrow> string list \<Rightarrow> 'f pyval" where
  "get_game_name stem insts roots =
     (case names_of_class ''DataModel'' (List.map_filter (map_of insts) roots) of
        v # _ \<Rightarrow> v
      | [] \<Rightarrow> (case names_of_class ''Workspace'' (map snd insts) of
                 v # _ \<Rightarrow> v
               | [] \<Rightarrow> VStr stem))"

text \<open>
  The parse of a well-formed document with root element \<open>doc\<close>, read from a file whose
  base name without extension is \<open>stem\<close>. An exception of the decoder leaves the parse.
\<close>

definition parse :: "'f pylib \<Rightarrow> string \<Rightarrow> xml \<Rightarrow> error + 'f game_data" where
  "parse L stem doc =
     (case second_pass L (xdescendants ''Item'' doc) (first_pass doc, {}) of
        Inl e \<Rightarrow> Inl e
      | Inr (insts, child_instances) \<Rightarrow>
          (let roots = find_roots insts child_instances in
           Inr \<lparr>name = get_game_name stem insts roots, instances = insts,
                root_instances = roots\<rparr>))"

subsection \<open>Notions for stating the parser's properties\<close>

text \<open>
  The node-declaring elements of a document (all elements with tag \<open>Item\<close>, the root
  included), the elements that the first pass records under an id, and documents in
  which no referent is carried by two node-declaring elements.
\<close>

definition all_items :: "xml \<Rightarrow> xml list" where
  "all_items doc = filter (\<lambda>e. xtag e = ''Item'') (end_events doc)"

definition declares_node :: "xml \<Rightarrow> string \<Rightarrow> bool" where
  "declares_node e r =
     (xtag e = ''Item'' \<and> xget e ''referent'' = Some r \<and> r \<noteq> [] \<and>
      (case xget e ''class'' of None \<Rightarrow> False | Some c \<Rightarrow> c \<noteq> []))"

definition unique_referents :: "xml \<Rightarrow> bool" where
  "unique_referents doc =
     distinct (List.map_filter (\<lambda>e. xget e ''referent'') (all_items doc))"

text \<open>
  The parent/child pairs that the second pass links while it visits the items \<open>xs\<close>,
  for a node map with key set \<open>K\<close>.
\<close>

definition item_edges :: "string set \<Rightarrow> xml list \<Rightarrow> (string \<times> string) set" where
  "item_edges K xs =
     {(r, cr). \<exists>x \<in> set xs. \<exists>c \<in> set (xfindall x ''Item'').
        xget x ''referent'' = Some r \<and> r \<in> K \<and> xget c ''referent'' = Some cr \<and> cr \<in> K}"

definition linked :: "(string \<times> string) set \<Rightarrow> 'f instances \<times> string set \<Rightarrow> bool" where
  "linked E st =
     (case st of (insts, S) \<Rightarrow>
        distinct (map fst insts) \<and> S = snd ` E \<and>
        (\<forall>r n. map_of insts r = Some n \<longrightarrow>
           (\<forall>c \<in> set (children n). (r, c) \<in> E) \<and>
           (\<forall>p. parent n = Some p \<longrightarrow> (p, r) \<in> E) \<and>
           ((\<exists>p. (p, r) \<in> E) \<longrightarrow> parent n \<noteq> None)))"

section \<open>Paths and the file system\<close>

text \<open>
  A path object: whether it is absolute, and its segments. Joining keeps \<open>..\<close> segments
  and drops empty and \<open>.\<close> segments, as the path library does; resolving \<open>..\<close> is left to
  the file system.
\<close>

record path =
  absolute :: bool
  segments :: "string list"

fun split_slash :: "string \<Rightarrow> string \<Rightarrow> string list" where
  "split_slash [] cur = [rev cur]"
| "split_slash (c # cs) cur =
     (if c = CHR ''/'' then rev cur # split_slash cs [] else split_slash cs (c # cur))"

definition path_div :: "path \<Rightarrow> string \<Rightarrow> path" where
  "path_div p s =
     (let segs = filter (\<lambda>x. x \<noteq> [] \<and> x \<noteq> ''.'') (split_slash s []) in
      if take 1 s = ''/'' then \<lparr>absolute = True, segments = segs\<rparr>
      else p\<lparr>segments := segments p @ segs\<rparr>)"

definition path_parent :: "path \<Rightarrow> path" where
  "path_parent p = p\<lparr>segments := butlast (segments p)\<rparr>"

definition parts :: "path \<Rightarrow> string list" where
  "parts p = (if absolute p then [''/''] else []) @ segments p"

text \<open>
  The file system: a tree of directories and files, each at a location (the names from
  the root), and the working directory. There are no links and no permissions. A file
  holds a content of type \<open>'c\<close>.
\<close>

datatype 'c node = Dir | File 'c

record 'c fs =
  nodes :: "string list \<Rightarrow> 'c node option"
  cwd :: "string list"

definition start :: "'c fs \<Rightarrow> path \<Rightarrow> string list" where
  "start fs p = (if absolute p then [] else cwd fs)"

text \<open>Walking down \<open>segs\<close> from the directory at \<open>cur\<close>; every step must reach a directory.\<close>

fun walk :: "'c fs \<Rightarrow> string list \<Rightarrow> string list \<Rightarrow> error + string list" where
  "walk fs cur [] = Inr cur"
| "walk fs cur (s # rest) =
     (if s = ''..'' then walk fs (butlast cur) rest
      else (case nodes fs (cur @ [s]) of
              None \<Rightarrow> Inl FileNotFoundError
            | Some Dir \<Rightarrow> walk fs (cur @ [s]) rest
            | Some (File c) \<Rightarrow> Inl NotADirectoryError))"

text \<open>The location and kind of what a path names, or the error of the lookup.\<close>

definition stat :: "'c fs \<Rightarrow> path \<Rightarrow> error + string list \<times> 'c node" where
  "stat fs p =
     (if segments p = [] then Inr (start fs p, Dir)
      else (case walk fs (start fs p) (butlast (segments p)) of
              Inl e \<Rightarrow> Inl e
            | Inr cur \<Rightarrow>
                (if last (segments p) = ''..'' then Inr (butlast cur, Dir)
                 else (case nodes fs (cur @ [last (segments p)]) of
                         None \<Rightarrow> Inl FileNotFoundError
                       | Some n \<Rightarrow> Inr (cur @ [last (segments p)], n)))))"

definition exists :: "'c fs \<Rightarrow> path \<Rightarrow> bool" where
  "exists fs p = (case stat fs p of Inl e \<Rightarrow> False | Inr r \<Rightarrow> True)"

definition is_dir :: "'c fs \<Rightarrow> path \<Rightarrow> bool" where
  "is_dir fs p = (case stat fs p of Inl e \<Rightarrow> False | Inr r \<Rightarrow> snd r = Dir)"

text \<open>The system call that creates one directory.\<close>

definition os_mkdir :: "'c fs \<Rightarrow> path \<Rightarrow> error + 'c fs" where
  "os_mkdir fs p =
     (if segments p = [] then Inl FileExistsError
      else (case walk fs (start fs p) (butlast (segments p)) of
              Inl e \<Rightarrow> Inl e
            | Inr cur \<Rightarrow>
                (if last (segments p) = ''..'' \<or> nodes fs (cur @ [last (segments p)]) \<noteq> None
                 then Inl FileExistsError
                 else Inr (fs\<lparr>nodes := (nodes fs)(cur @ [last (segments p)] \<mapsto> Dir)\<rparr>))))"

text \<open>\<open>p.mkdir(parents=..., exist_ok=...)\<close> of the path library.\<close>

function mkdir :: "'c fs \<Rightarrow> path \<Rightarrow> bool \<Rightarrow> bool \<Rightarrow> error + 'c fs" where
  "mkdir fs p parents exist_ok =
     (case os_mkdir fs p of
        Inr fs' \<Rightarrow> Inr fs'
      | Inl e \<Rightarrow>
          if e = FileNotFoundError then
            (if \<not> parents \<or> segments p = [] then Inl e
             else (case mkdir fs (path_parent p) True True of
                     Inl e' \<Rightarrow> Inl e'
                   | Inr fs1 \<Rightarrow> mkdir fs1 p False exist_ok))
          else if \<not> exist_ok \<or> \<not> is_dir fs p then Inl e
          else Inr fs)"
  by pat_completeness auto
termination
  by (relation "measure (\<lambda>(fs, p, parents, exist_ok).
        2 * length (segments p) + (if parents then 1 else 0))")
     (auto simp add: path_parent_def)

declare mkdir.simps [simp del]

text \<open>\<open>if not p.exists(): p.mkdir(parents=True, exist_ok=...)\<close>\<close>

definition ensure_dir :: "'c fs \<Rightarrow> path \<Rightarrow> bool \<Rightarrow> error + 'c fs" where
  "ensure_dir fs p exist_ok = (if exists fs p then Inr fs else mkdir fs p True exist_ok)"

text \<open>Opening \<open>p\<close> for writing and writing \<open>content\<close>: the file is created or replaced.\<close>

definition write_file :: "'c fs \<Rightarrow> path \<Rightarrow> 'c \<Rightarrow> error + 'c fs" where
  "write_file fs p content =
     (if segments p = [] then Inl IsADirectoryError
      else (case walk fs (start fs p) (butlast (segments p)) of
              Inl e \<Rightarrow> Inl e
            | Inr cur \<Rightarrow>
                (if last (segments p) = ''..'' then Inl IsADirectoryError
                 else (case nodes fs (cur @ [last (segments p)]) of
                         Some Dir \<Rightarrow> Inl IsADirectoryError
                       | _ \<Rightarrow> Inr (fs\<lparr>nodes :=
                                (nodes fs)(cur @ [last (segments p)] \<mapsto> File content)\<rparr>)))))"

section \<open>Project emitter\<close>

text \<open>
  What a file holds: the text of a script, or a JSON document. The text that the JSON
  serialiser writes is a function of the document, so the document stands for it.
\<close>

datatype 'f json = JVal "'f pyval" | JList "'f json list" | JObj "(string \<times> 'f json) list"

datatype 'f content = Text string | Json "'f json"

definition py_startswith :: "string \<Rightarrow> string \<Rightarrow> bool" where
  "py_startswith s pre = (take (length pre) s = pre)"

definition py_endswith :: "string \<Rightarrow> string \<Rightarrow> bool" where
  "py_endswith s suf = (length suf \<le> length s \<and> drop (length s - length suf) s = suf)"

text \<open>\<open>c in s\<close> for strings: \<open>c\<close> occurs in \<open>s\<close> as a substring.\<close>

fun py_in :: "string \<Rightarrow> string \<Rightarrow> bool" where
  "py_in c [] = (c = [])"
| "py_in c (x # xs) = (take (length c) (x # xs) = c \<or> py_in c xs)"

text \<open>
  The display name of a node, and \<open>normalize_name\<close> applied to it. The name is a
  property value: on a string the normalizer works on its characters, on a dictionary
  its loop runs over the keys, and any other value is not iterable.
\<close>

definition instance_name :: "'f inst \<Rightarrow> 'f pyval" where
  "instance_name i =
     (case map_of (properties i) (Some ''Name'') of Some v \<Rightarrow> v | None \<Rightarrow> VStr (inst_class i))"

definition normalize_keys :: "string list \<Rightarrow> string" where
  "normalize_keys ks =
     (let normalized = concat (map (\<lambda>c. if py_in c valid_chars then c else ''_'') ks);
          normalized = strip_where py_isspace (strip_where (\<lambda>c. c = CHR ''_'') normalized)
      in if normalized = [] then ''unnamed'' else normalized)"

definition normalize_value :: "'f pyval \<Rightarrow> error + string" where
  "normalize_value v =
     (case v of VStr s \<Rightarrow> Inr (normalize_name s)
      | VDict d \<Rightarrow> Inr (normalize_keys (map fst d))
      | _ \<Rightarrow> Inl TypeError)"

definition script_classes :: "string list" where
  "script_classes = [''Script'', ''LocalScript'', ''ModuleScript'']"

definition script_extension :: "string \<Rightarrow> string" where
  "script_extension c =
     (case map_of [(''Script'', ''.server.lua''), (''LocalScript'', ''.client.lua''),
                   (''ModuleScript'', ''.lua'')] c of
        Some ext \<Rightarrow> ext | None \<Rightarrow> ''.lua'')"

subsection \<open>Metadata sidecar\<close>

definition important_properties :: "string list" where
  "important_properties =
     [''Anchored'', ''CanCollide'', ''CastShadow'', ''CollisionGroupId'', ''Massless'',
      ''Material'', ''Transparency'', ''Reflectance'', ''Locked'',
      ''Size'', ''CFrame'', ''Position'', ''Rotation'', ''RotVelocity'', ''Velocity'',
      ''BackgroundColor3'', ''BackgroundTransparency'', ''BorderColor3'', ''BorderSizePixel'',
      ''TextColor3'', ''Font'', ''TextSize'', ''Text'', ''TextWrapped'', ''TextXAlignment'',
      ''TextYAlignment'', ''Image'', ''ImageColor3'', ''ImageTransparency'', ''ScaleType'',
      ''Enabled'', ''Visible'', ''Value'', ''MaxValue'', ''MinValue'', ''Sound'', ''Volume'',
      ''Pitch'', ''CanBeDropped'', ''RequiresHandle'', ''Looped'', ''Playing'', ''TimePosition'',
      ''Ambient'', ''Brightness'', ''ColorShift_Bottom'', ''ColorShift_Top'', ''GlobalShadows'',
      ''OutdoorAmbient'', ''TimeOfDay'', ''FogColor'', ''FogEnd'', ''FogStart'',
      ''MeshId'', ''TextureId'', ''SoundId'', ''CollisionGroup'', ''AttachmentPoint'',
      ''PrimaryPart'']"

definition dict_get :: "(string \<times> 'f pyval) list \<Rightarrow> string \<Rightarrow> 'f pyval \<Rightarrow> 'f pyval" where
  "dict_get d k dflt = (case map_of d k of Some v \<Rightarrow> v | None \<Rightarrow> dflt)"

text \<open>The value written to the sidecar for an included property.\<close>

definition meta_value :: "'f pyval \<Rightarrow> 'f json" where
  "meta_value prop_value =
     (case prop_value of
        VDict d \<Rightarrow>
          (case (map_of d ''R'', map_of d ''G'', map_of d ''B'') of
             (Some r, Some g, Some b) \<Rightarrow> JList [JVal r, JVal g, JVal b]
           | _ \<Rightarrow>
          (case (map_of d ''X'', map_of d ''Y'', map_of d ''Z'') of
             (Some x, Some y, Some z) \<Rightarrow> JList [JVal x, JVal y, JVal z]
           | _ \<Rightarrow>
          (case (map_of d ''X'', map_of d ''Y'', length d = 2) of
             (Some x, Some y, True) \<Rightarrow> JList [JVal x, JVal y]
           | _ \<Rightarrow>
          (case (map_of d ''X'', map_of d ''Y'', map_of d ''Z'', map_of d ''R00'') of
             (Some x, Some y, Some z, Some r00) \<Rightarrow>
               JList [JVal x, JVal y, JVal z,
                 JVal (dict_get d ''R00'' (VInt 1)), JVal (dict_get d ''R01'' (VInt 0)),
                 JVal (dict_get d ''R02'' (VInt 0)), JVal (dict_get d ''R10'' (VInt 0)),
                 JVal (dict_get d ''R11'' (VInt 1)), JVal (dict_get d ''R12'' (VInt 0)),
                 JVal (dict_get d ''R20'' (VInt 0)), JVal (dict_get d ''R21'' (VInt 0)),
                 JVal (dict_get d ''R22'' (VInt 1))]
           | _ \<Rightarrow>
               JObj (map (\<lambda>(k, v). (k, JVal v))
                      (filter (\<lambda>(k, v). \<not> py_startswith k ''_'') d))))))
      | _ \<Rightarrow> JVal prop_value)"

definition included_property :: "string \<Rightarrow> bool" where
  "included_property prop_name =
     (prop_name \<noteq> ''Name'' \<and> \<not> py_startswith prop_name ''_'' \<and>
      (prop_name \<in> set important_properties \<or> py_endswith prop_name ''Color3'' \<or>
       py_endswith prop_name ''Size'' \<or> py_endswith prop_name ''Offset'' \<or>
       py_endswith prop_name ''Position''))"

fun meta_properties :: "(string option \<times> 'f pyval) list \<Rightarrow> (string \<times> 'f json) list
    \<Rightarrow> error + (string \<times> 'f json) list" where
  "meta_properties [] meta = Inr meta"
| "meta_properties ((prop_name, prop_value) # rest) meta =
     (case prop_name of
        None \<Rightarrow> Inl AttributeError
      | Some pn \<Rightarrow>
          if included_property pn
          then meta_properties rest (AList.update pn (meta_value prop_value) meta)
          else meta_properties rest meta)"

definition create_meta_file :: "'f inst \<Rightarrow> path \<Rightarrow> 'f content fs \<Rightarrow> error + 'f content fs" where
  "create_meta_file i p fs =
     (case meta_properties (properties i) [] of
        Inl e \<Rightarrow> Inl e
      | Inr meta \<Rightarrow>
          if inst_class i \<notin> set [''Folder''] \<or> length meta > 0 then
            (case normalize_value (instance_name i) of
               Inl e \<Rightarrow> Inl e
             | Inr nm \<Rightarrow>
                 write_file fs (path_div p (nm @ ''.meta.json''))
                   (Json (JObj [(''className'', JVal (VStr (inst_class i))),
                                (''properties'', JObj meta)])))
          else Inr fs)"

subsection \<open>Placement of nodes\<close>

text \<open>Writing a script: the file is opened first, then the source must be a string.\<close>

definition write_source :: "'f content fs \<Rightarrow> path \<Rightarrow> 'f pyval \<Rightarrow> error + 'f content fs" where
  "write_source fs p source_code =
     (case source_code of
        VStr s \<Rightarrow> write_file fs p (Text s)
      | _ \<Rightarrow> (case write_file fs p (Text []) of Inl e \<Rightarrow> Inl e | Inr fs' \<Rightarrow> Inl TypeError))"

text \<open>
  The recursive placement. The first argument bounds the nesting depth of the calls of
  \<open>_process_instance\<close> and \<open>_create_script_file\<close>, as the interpreter's recursion limit
  does: a call beyond it raises \<open>RecursionError\<close>.
\<close>

function (sequential) process_instance :: "nat \<Rightarrow> 'f instances \<Rightarrow> 'f inst \<Rightarrow> path \<Rightarrow> bool \<Rightarrow> 'f content fs
      \<Rightarrow> error + 'f content fs"
  and create_script_file :: "nat \<Rightarrow> 'f instances \<Rightarrow> 'f inst \<Rightarrow> path \<Rightarrow> 'f content fs
      \<Rightarrow> error + 'f content fs"
  and process_children :: "nat \<Rightarrow> 'f instances \<Rightarrow> string list \<Rightarrow> path \<Rightarrow> 'f content fs
      \<Rightarrow> error + 'f content fs"
  and script_children :: "nat \<Rightarrow> 'f instances \<Rightarrow> string \<Rightarrow> string list \<Rightarrow> path
      \<Rightarrow> 'f content fs \<Rightarrow> error + 'f content fs"
where
  "process_instance 0 insts i parent_path is_root fs = Inl RecursionError"
| "process_instance (Suc d) insts i parent_path is_root fs =
     (if inst_class i \<in> set script_classes then create_script_file d insts i parent_path fs
      else
        (case normalize_value (instance_name i) of
           Inl e \<Rightarrow> Inl e
         | Inr dir_name \<Rightarrow>
             if children i \<noteq> [] \<or> is_root \<or> properties i \<noteq> [] then
               (let reuse = (is_root \<and> inst_class i \<in> set (parts parent_path));
                    instance_path = (if reuse then parent_path
                                     else path_div parent_path dir_name) in
                case (if reuse then Inr fs else ensure_dir fs instance_path True) of
                  Inl e \<Rightarrow> Inl e
                | Inr fs1 \<Rightarrow>
                    (case create_meta_file i instance_path fs1 of
                       Inl e \<Rightarrow> Inl e
                     | Inr fs2 \<Rightarrow> process_children d insts (children i) instance_path fs2))
             else Inr fs))"
| "create_script_file 0 insts i parent_path fs = Inl RecursionError"
| "create_script_file (Suc d) insts i parent_path fs =
     (case normalize_value (instance_name i) of
        Inl e \<Rightarrow> Inl e
      | Inr nm \<Rightarrow>
          (let script_path = path_div parent_path (nm @ script_extension (inst_class i)) in
           case write_source fs script_path
                  (case map_of (properties i) (Some ''Source'') of
                     Some v \<Rightarrow> v | None \<Rightarrow> VStr []) of
             Inl e \<Rightarrow> Inl e
           | Inr fs1 \<Rightarrow>
               if children i \<noteq> [] then
                 (case create_meta_file i (path_parent script_path) fs1 of
                    Inl e \<Rightarrow> Inl e
                  | Inr fs2 \<Rightarrow> script_children d insts nm (children i) parent_path fs2)
               else Inr fs1))"
| "process_children d insts [] p fs = Inr fs"
| "process_children d insts (child_ref # rest) p fs =
     (case map_of insts child_ref of
        None \<Rightarrow> process_children d insts rest p fs
      | Some child \<Rightarrow>
          (case process_instance d insts child p False fs of
             Inl e \<Rightarrow> Inl e
           | Inr fs' \<Rightarrow> process_children d insts rest p fs'))"
| "script_children d insts nm [] parent_path fs = Inr fs"
| "script_children d insts nm (child_ref # rest) parent_path fs =
     (case map_of insts child_ref of
        None \<Rightarrow> script_children d insts nm rest parent_path fs
      | Some child \<Rightarrow>
          (let child_dir = path_div parent_path nm in
           case ensure_dir fs child_dir True of
             Inl e \<Rightarrow> Inl e
           | Inr fs1 \<Rightarrow>
               (case process_instance d insts child child_dir False fs1 of
                  Inl e \<Rightarrow> Inl e
                | Inr fs2 \<Rightarrow> script_children d insts nm rest parent_path fs2)))"
  by pat_completeness auto

termination
  by (relation "measures [\<lambda>x. case x of
        Inl (Inl (d, _)) \<Rightarrow> d | Inl (Inr (d, _)) \<Rightarrow> d
      | Inr (Inl (d, _)) \<Rightarrow> d | Inr (Inr (d, _)) \<Rightarrow> d,
      \<lambda>x. case x of
        Inl (Inl _) \<Rightarrow> 0 | Inl (Inr _) \<Rightarrow> 0
      | Inr (Inl (d, insts, cs, _)) \<Rightarrow> Suc (length cs)
      | Inr (Inr (d, insts, nm, cs, _)) \<Rightarrow> Suc (length cs)]") auto

subsection \<open>Manifest and standard directories\<close>

datatype ptree = PStr string | PObj "(string \<times> ptree) list"

definition service_entry :: "string \<Rightarrow> string \<times> ptree" where
  "service_entry service =
     (service, PObj [(''$className'', PStr service), (''$path'', PStr (''src/'' @ service))])"

definition project_tree :: "(string \<times> ptree) list" where
  "project_tree =
     [(''$className'', PStr ''DataModel''),
      service_entry ''ReplicatedStorage'',
      service_entry ''ServerScriptService'',
      service_entry ''ServerStorage'',
      service_entry ''StarterGui'',
      service_entry ''StarterPack'',
      (''StarterPlayer'', PObj
         [(''$className'', PStr ''StarterPlayer''),
          (''StarterPlayerScripts'', PObj
             [(''$className'', PStr ''StarterPlayerScripts''),
              (''$path'', PStr ''src/StarterPlayer/StarterPlayerScripts'')]),
          (''StarterCharacterScripts'', PObj
             [(''$className'', PStr ''StarterCharacterScripts''),
              (''$path'', PStr ''src/StarterPlayer/StarterCharacterScripts'')])]),
      service_entry ''Workspace'',
      service_entry ''Lighting'',
      service_entry ''SoundService'']
     @ map service_entry
         [''ReplicatedFirst'', ''Players'', ''Chat'', ''LocalizationService'',
          ''TestService'', ''MarketplaceService'', ''HttpService'']"

fun json_of_ptree :: "ptree \<Rightarrow> 'f json" where
  "json_of_ptree (PStr s) = JVal (VStr s)"
| "json_of_ptree (PObj kvs) = JObj (map (\<lambda>(k, v). (k, json_of_ptree v)) kvs)"

text \<open>
  The directory of one entry of the manifest tree, when the entry has a \<open>$path\<close>. For a
  string entry \<open>'$path' in value\<close> is a substring test, and indexing the string raises.
\<close>

definition standard_directory :: "ptree \<Rightarrow> path \<Rightarrow> 'c fs \<Rightarrow> error + 'c fs" where
  "standard_directory v base_path fs =
     (case v of
        PObj kvs \<Rightarrow>
          (case map_of kvs ''$path'' of
             None \<Rightarrow> Inr fs
           | Some (PStr s) \<Rightarrow> ensure_dir fs (path_div base_path s) True
           | Some (PObj x) \<Rightarrow> Inl TypeError)
      | PStr s \<Rightarrow> if py_in ''$path'' s then Inl TypeError else Inr fs)"

fun create_standard_directories :: "(string \<times> ptree) list \<Rightarrow> path \<Rightarrow> 'c fs
    \<Rightarrow> error + 'c fs" where
  "create_standard_directories [] base_path fs = Inr fs"
| "create_standard_directories ((key, v) # rest) base_path fs =
     (if py_startswith key ''$'' then create_standard_directories rest base_path fs
      else
        (case standard_directory v base_path fs of
           Inl e \<Rightarrow> Inl e
         | Inr fs1 \<Rightarrow>
             (case (case v of PObj kvs \<Rightarrow> create_standard_directories kvs base_path fs1
                    | PStr s \<Rightarrow> Inr fs1) of
                Inl e \<Rightarrow> Inl e
              | Inr fs2 \<Rightarrow> create_standard_directories rest base_path fs2)))"

definition generate_project_json :: "'f game_data \<Rightarrow> path \<Rightarrow> 'f content fs
    \<Rightarrow> error + 'f content fs" where
  "generate_project_json game_data output_dir fs =
     (case write_file fs (path_div output_dir ''default.project.json'')
             (Json (JObj [(''name'', JVal (name game_data)),
                          (''tree'', json_of_ptree (PObj project_tree))])) of
        Inl e \<Rightarrow> Inl e
      | Inr fs1 \<Rightarrow> create_standard_directories project_tree output_dir fs1)"

subsection \<open>The emitter\<close>

text \<open>
  The loop over the root ids. Its state is the file system and the workspace node seen
  last, with its path.
\<close>

fun process_roots :: "nat \<Rightarrow> 'f instances \<Rightarrow> path \<Rightarrow> string list
    \<Rightarrow> ('f inst \<times> path) option \<Rightarrow> 'f content fs
    \<Rightarrow> error + ('f inst \<times> path) option \<times> 'f content fs" where
  "process_roots d insts src_dir [] ws fs = Inr (ws, fs)"
| "process_roots d insts src_dir (ref_id # rest) ws fs =
     (case map_of insts ref_id of
        None \<Rightarrow> process_roots d insts src_dir rest ws fs
      | Some i \<Rightarrow>
          if inst_class i = ''Workspace'' then
            (let workspace_path = path_div src_dir ''Workspace'' in
             case ensure_dir fs workspace_path False of
               Inl e \<Rightarrow> Inl e
             | Inr fs1 \<Rightarrow>
                 (case create_meta_file i workspace_path fs1 of
                    Inl e \<Rightarrow> Inl e
                  | Inr fs2 \<Rightarrow>
                      process_roots d insts src_dir rest (Some (i, workspace_path)) fs2))
          else
            (case process_instance d insts i src_dir True fs of
               Inl e \<Rightarrow> Inl e
             | Inr fs1 \<Rightarrow> process_roots d insts src_dir rest ws fs1))"

text \<open>
  The emission of a project into \<open>output_dir\<close>, with recursion limit \<open>limit\<close>.
\<close>

definition generate_project :: "nat \<Rightarrow> 'f game_data \<Rightarrow> path \<Rightarrow> 'f content fs
    \<Rightarrow> error + 'f content fs" where
  "generate_project limit game_data output_dir fs =
     (let src_dir = path_div output_dir ''src'' in
      case ensure_dir fs src_dir False of
        Inl e \<Rightarrow> Inl e
      | Inr fs1 \<Rightarrow>
          (case generate_project_json game_data output_dir fs1 of
             Inl e \<Rightarrow> Inl e
           | Inr fs2 \<Rightarrow>
               (case process_roots limit (instances game_data) src_dir
                       (root_instances game_data) None fs2 of
                  Inl e \<Rightarrow> Inl e
                | Inr (ws, fs3) \<Rightarrow>
                    (case ws of
                       None \<Rightarrow> Inr fs3
                     | Some (workspace_instance, workspace_path) \<Rightarrow>
                         process_children limit (instances game_data)
                           (children workspace_instance) workspace_path fs3))))"

section \<open>Emission as a sequence of file-system operations\<close>

text \<open>
  The emitter touches the file system through two operations only: creating a directory
  unless the path exists, and writing a file. A plan is a list of such operations,
  followed by an exception or by normal completion.
\<close>

datatype 'c op = EnsureDir path bool | WriteFile path 'c

fun run_op :: "'c op \<Rightarrow> 'c fs \<Rightarrow> error + 'c fs" where
  "run_op (EnsureDir p exist_ok) fs = ensure_dir fs p exist_ok"
| "run_op (WriteFile p c) fs = write_file fs p c"

fun run_ops :: "'c op list \<Rightarrow> 'c fs \<Rightarrow> error + 'c fs" where
  "run_ops [] fs = Inr fs"
| "run_ops (x # xs) fs = (case run_op x fs of Inl e \<Rightarrow> Inl e | Inr fs' \<Rightarrow> run_ops xs fs')"

definition run_plan :: "'c op list \<times> error option \<Rightarrow> 'c fs \<Rightarrow> error + 'c fs" where
  "run_plan plan fs =
     (case run_ops (fst plan) fs of
        Inl e \<Rightarrow> Inl e
      | Inr fs' \<Rightarrow> (case snd plan of None \<Rightarrow> Inr fs' | Some e \<Rightarrow> Inl e))"

definition planned :: "('c fs \<Rightarrow> error + 'c fs) \<Rightarrow> bool" where
  "planned f = (\<exists>plan. \<forall>fs. f fs = run_plan plan fs)"

text \<open>
  \<open>fs_le S T\<close>: the file system \<open>T\<close> has every directory of \<open>S\<close> as a directory and every
  file of \<open>S\<close> as a file (with any content), and the same working directory.
\<close>

definition fs_le :: "'c fs \<Rightarrow> 'c fs \<Rightarrow> bool" where
  "fs_le S T =
     (cwd T = cwd S \<and>
      (\<forall>l. nodes S l = Some Dir \<longrightarrow> nodes T l = Some Dir) \<and>
      (\<forall>l c. nodes S l = Some (File c) \<longrightarrow> (\<exists>c'. nodes T l = Some (File c'))))"

text \<open>\<open>keeps S T\<close>: every directory and file of \<open>S\<close> is in \<open>T\<close> unchanged.\<close>

definition keeps :: "'c fs \<Rightarrow> 'c fs \<Rightarrow> bool" where
  "keeps S T = (cwd T = cwd S \<and> (\<forall>l n. nodes S l = Some n \<longrightarrow> nodes T l = Some n))"

text \<open>The location that a write to \<open>p\<close> targets, when the directory of \<open>p\<close> resolves.\<close>

definition target :: "'c fs \<Rightarrow> path \<Rightarrow> string list option" where
  "target fs p =
     (if segments p = [] \<or> last (segments p) = ''..'' then None
      else (case walk fs (start fs p) (butlast (segments p)) of
              Inl e \<Rightarrow> None
            | Inr cur \<Rightarrow> Some (cur @ [last (segments p)])))"

text \<open>An operation is settled in a file system, if running it there changes no name.\<close>

fun settled :: "'c fs \<Rightarrow> 'c op \<Rightarrow> bool" where
  "settled fs (EnsureDir p exist_ok) = exists fs p"
| "settled fs (WriteFile p c) =
     (case target fs p of None \<Rightarrow> False
      | Some l \<Rightarrow> (case nodes fs l of Some (File c') \<Rightarrow> True | _ \<Rightarrow> False))"

text \<open>The last content that the operations write to each location.\<close>

fun writes :: "'c fs \<Rightarrow> 'c op list \<Rightarrow> (string list \<Rightarrow> 'c option) \<Rightarrow> string list \<Rightarrow> 'c option" where
  "writes fs [] m = m"
| "writes fs (EnsureDir p exist_ok # xs) m = writes fs xs m"
| "writes fs (WriteFile p c # xs) m =
     writes fs xs (case target fs p of None \<Rightarrow> m | Some l \<Rightarrow> m(l \<mapsto> c))"

text \<open>
  \<open>changes_below dir S T\<close>: the file systems \<open>S\<close> and \<open>T\<close> hold the same at every location
  that is not strictly below the location \<open>dir\<close>.
\<close>

definition changes_below :: "string list \<Rightarrow> 'c fs \<Rightarrow> 'c fs \<Rightarrow> bool" where
  "changes_below dir S T = (\<forall>l. nodes T l \<noteq> nodes S l \<longrightarrow> (\<exists>r. r \<noteq> [] \<and> l = dir @ r))"

section \<open>Property decoder\<close>

lemma py_lower_char_eq_lower:
  assumes "97 \<le> (of_char l :: nat)" "(of_char l :: nat) \<le> 122"
  shows "py_lower_char c = l \<longleftrightarrow> c = l \<or> (of_char c :: nat) + 32 = of_char l"
proof (cases "(65 \<le> (of_char c :: nat) \<and> (of_char c :: nat) \<le> 90) \<or>
    (192 \<le> (of_char c :: nat) \<and> (of_char c :: nat) \<le> 222 \<and> (of_char c :: nat) \<noteq> 215)")
  case True
  then have low: "py_lower_char c = char_of ((of_char c :: nat) + 32)"
    by (simp add: py_lower_char_def Let_def)
  have "(char_of ((of_char c :: nat) + 32) = l) \<longleftrightarrow> ((of_char c :: nat) + 32 = of_char l)"
  proof
    assume "char_of ((of_char c :: nat) + 32) = l"
    then have "(of_char (char_of ((of_char c :: nat) + 32)) :: nat) = of_char l" by simp
    moreover have "((of_char c :: nat) + 32) mod 256 = of_char c + 32" using True by auto
    ultimately show "(of_char c :: nat) + 32 = of_char l" by (simp add: of_char_of)
  next
    assume "(of_char c :: nat) + 32 = of_char l"
    then show "char_of ((of_char c :: nat) + 32) = l" by simp
  qed
  moreover have "c \<noteq> l" using True assms by auto
  ultimately show ?thesis using low by simp
next
  case False
  then have "py_lower_char c = c" by (auto simp add: py_lower_char_def Let_def)
  moreover have "(of_char c :: nat) + 32 \<noteq> of_char l" using False assms by auto
  ultimately show ?thesis by simp
qed

lemma of_char_plus_32:
  assumes "(of_char c :: nat) + 32 = of_char l" and "(of_char u :: nat) + 32 = of_char l"
  shows "c = u"
proof -
  have "(of_char c :: nat) = of_char u" using assms by linarith
  then show "c = u" by (simp only: of_char_eq_iff)
qed

lemma py_lower_char_t: "py_lower_char c = CHR ''t'' \<longleftrightarrow> c = CHR ''t'' \<or> c = CHR ''T''"
  using py_lower_char_eq_lower[of "CHR ''t''" c] of_char_plus_32[of c "CHR ''t''" "CHR ''T''"]
  by auto

lemma py_lower_char_r: "py_lower_char c = CHR ''r'' \<longleftrightarrow> c = CHR ''r'' \<or> c = CHR ''R''"
  using py_lower_char_eq_lower[of "CHR ''r''" c] of_char_plus_32[of c "CHR ''r''" "CHR ''R''"]
  by auto

lemma py_lower_char_u: "py_lower_char c = CHR ''u'' \<longleftrightarrow> c = CHR ''u'' \<or> c = CHR ''U''"
  using py_lower_char_eq_lower[of "CHR ''u''" c] of_char_plus_32[of c "CHR ''u''" "CHR ''U''"]
  by auto

lemma py_lower_char_e: "py_lower_char c = CHR ''e'' \<longleftrightarrow> c = CHR ''e'' \<or> c = CHR ''E''"
  using py_lower_char_eq_lower[of "CHR ''e''" c] of_char_plus_32[of c "CHR ''e''" "CHR ''E''"]
  by auto

lemma py_lower_true:
  "py_lower s = ''true'' \<longleftrightarrow>
     (\<exists>a b c d. s = [a, b, c, d] \<and> (a = CHR ''t'' \<or> a = CHR ''T'') \<and>
        (b = CHR ''r'' \<or> b = CHR ''R'') \<and> (c = CHR ''u'' \<or> c = CHR ''U'') \<and>
        (d = CHR ''e'' \<or> d = CHR ''E''))"
proof -
  have "py_lower s = ''true'' \<longleftrightarrow>
      (\<exists>a b c d. s = [a, b, c, d] \<and> py_lower_char a = CHR ''t'' \<and> py_lower_char b = CHR ''r''
         \<and> py_lower_char c = CHR ''u'' \<and> py_lower_char d = CHR ''e'')"
    by (auto simp add: py_lower_def map_eq_Cons_conv)
  then show ?thesis
    by (simp only: py_lower_char_t py_lower_char_r py_lower_char_u py_lower_char_e)
qed

text \<open>
  C5 (counterexample). The text is not trimmed before the comparison: a boolean element
  with text \<open>" true "\<close> decodes to false.
\<close>

theorem bool_surrounding_whitespace_false:
  "extract_property_value digits_lib
     (Elem ''bool'' [(''name'', ''Anchored'')] (Some '' true '') []) = Inr (VBool False)"
  by (simp add: extract_property_value_def py_lower_def py_lower_char_def)

text \<open>
  C5 (amended). A boolean element with a text decodes to the case-insensitive comparison
  of the text, as it stands, with \<open>"true"\<close>: the result is true exactly for the sixteen
  spellings of \<open>true\<close> in upper and lower case, and false for every other text, also for
  \<open>true\<close> with surrounding whitespace.
\<close>

theorem bool_decode_case_insensitive:
  assumes "xtag e = ''bool''" and "xtext e = Some s"
  shows "extract_property_value L e =
     Inr (VBool (\<exists>a b c d. s = [a, b, c, d] \<and> (a = CHR ''t'' \<or> a = CHR ''T'') \<and>
        (b = CHR ''r'' \<or> b = CHR ''R'') \<and> (c = CHR ''u'' \<or> c = CHR ''U'') \<and>
        (d = CHR ''e'' \<or> d = CHR ''E'')))"
proof -
  have "extract_property_value L e = Inr (VBool (py_lower s = ''true''))"
    using assms by (simp add: extract_property_value_def)
  then show ?thesis by (simp only: py_lower_true)
qed

theorem bool_decode_case_insensitive_witness:
  "extract_property_value digits_lib
     (Elem ''bool'' [(''name'', ''Anchored'')] (Some ''TRUE'') []) = Inr (VBool True)
   \<and> extract_property_value digits_lib
     (Elem ''bool'' [(''name'', ''Anchored'')] (Some ''yes'') []) = Inr (VBool False)"
  using bool_decode_case_insensitive
          [of "Elem ''bool'' [(''name'', ''Anchored'')] (Some ''TRUE'') []" "''TRUE''" digits_lib]
        bool_decode_case_insensitive
          [of "Elem ''bool'' [(''name'', ''Anchored'')] (Some ''yes'') []" "''yes''" digits_lib]
  by simp

text \<open>
  C6 (counterexample). A colour element with \<open>R\<close> and \<open>G\<close> present (both \<open>1\<close>) and \<open>B\<close>
  missing decodes to all zeros: the present components do not keep their values.
\<close>

theorem color3_missing_component_all_zero:
  "extract_property_value digits_lib
     (Elem ''Color3'' [(''name'', ''Color'')] None
        [Elem ''R'' [] (Some ''1'') [], Elem ''G'' [] (Some ''1'') []])
   = Inr (VDict [(''R'', VInt 0), (''G'', VInt 0), (''B'', VInt 0)])"
  by (simp add: extract_property_value_def xfind_def)

text \<open>
  C6 (amended). Decoding a 3-component colour element reads the child elements \<open>R\<close>, \<open>G\<close>
  and \<open>B\<close> as floats (an absent or empty text as zero) when all three are present, and
  produces the record \<open>{R, G, B}\<close> of the three values; when any of the three is missing
  the result is the record \<open>{R: 0, G: 0, B: 0}\<close>, whatever the present components hold.
\<close>

theorem color3_decode_all_or_nothing:
  "(xtag e = ''Color3'' \<or> xtag e = ''Color3uint8'') \<longrightarrow>
     (\<forall>r g b rv gv bv.
        xfind e ''R'' = Some r \<and> xfind e ''G'' = Some g \<and> xfind e ''B'' = Some b \<and>
        float_of_text L (xtext r) = Inr rv \<and> float_of_text L (xtext g) = Inr gv \<and>
        float_of_text L (xtext b) = Inr bv \<longrightarrow>
        extract_property_value L e = Inr (VDict [(''R'', rv), (''G'', gv), (''B'', bv)])) \<and>
     (xfind e ''R'' = None \<or> xfind e ''G'' = None \<or> xfind e ''B'' = None \<longrightarrow>
        extract_property_value L e =
          Inr (VDict [(''R'', VInt 0), (''G'', VInt 0), (''B'', VInt 0)]))"
  by (auto simp add: extract_property_value_def bind_err_def split: option.splits)

theorem color3_decode_all_or_nothing_witness:
  "extract_property_value digits_lib
     (Elem ''Color3'' [(''name'', ''Color'')] None
        [Elem ''R'' [] (Some ''1'') [], Elem ''G'' [] (Some ''2'') [], Elem ''B'' [] None []])
   = Inr (VDict [(''R'', VFloat 1), (''G'', VFloat 2), (''B'', VFloat 0)])
   \<and> extract_property_value digits_lib
     (Elem ''Color3'' [(''name'', ''Color'')] None
        [Elem ''G'' [] (Some ''2'') [], Elem ''B'' [] (Some ''3'') []])
   = Inr (VDict [(''R'', VInt 0), (''G'', VInt 0), (''B'', VInt 0)])"
  using color3_decode_all_or_nothing
          [of "Elem ''Color3'' [(''name'', ''Color'')] None
                 [Elem ''R'' [] (Some ''1'') [], Elem ''G'' [] (Some ''2'') [],
                  Elem ''B'' [] None []]" digits_lib]
        color3_decode_all_or_nothing
          [of "Elem ''Color3'' [(''name'', ''Color'')] None
                 [Elem ''G'' [] (Some ''2'') [], Elem ''B'' [] (Some ''3'') []]" digits_lib]
  by (simp add: xfind_def float_of_text_def digits_lib_def)

text \<open>
  C2. The decoder raises on a physical-properties element that lacks its \<open>CustomPhysics\<close>
  sub-element; it returns no default.
\<close>

theorem physical_properties_missing_child_raises:
  "extract_property_value L
     (Elem ''PhysicalProperties'' [(''name'', ''CustomPhysicalProperties'')] None [])
   = Inl AttributeError"
  by (simp add: extract_property_value_def xfind_def)

section \<open>Name normalizer\<close>

text \<open>
  C4. The normalizer strips underscores first and whitespace second, so an underscore that
  is uncovered by the whitespace strip survives: the name \<open>" _a"\<close> normalizes to \<open>"_a"\<close>,
  which still has a leading underscore and normalizes further to \<open>"a"\<close>.
\<close>

theorem normalize_name_not_idempotent:
  "normalize_name '' _a'' = ''_a'' \<and> normalize_name (normalize_name '' _a'') = ''a''"
  by (simp add: normalize_name_def strip_where_def valid_chars_def py_isspace_def)

section \<open>Graph parser\<close>

lemma first_pass_step_keys:
  "fst ` set (first_pass_step e acc) = fst ` set acc \<union> {r. declares_node e r}"
  by (auto simp add: first_pass_step_def declares_node_def dom_update split: option.splits)

lemma fold_first_pass_keys:
  "fst ` set (fold first_pass_step es acc) = fst ` set acc \<union> {r. \<exists>e \<in> set es. declares_node e r}"
  by (induction es arbitrary: acc) (auto simp add: first_pass_step_keys)

lemma declares_node_item: "declares_node e r \<Longrightarrow> xtag e = ''Item''"
  by (simp add: declares_node_def)

lemma first_pass_keys:
  "fst ` set (first_pass doc) = {r. \<exists>e \<in> set (all_items doc). declares_node e r}"
  by (auto simp add: first_pass_def fold_first_pass_keys all_items_def declares_node_item)

lemma first_pass_step_distinct:
  "distinct (map fst acc) \<Longrightarrow> distinct (map fst (first_pass_step e acc))"
  by (auto simp add: first_pass_step_def distinct_update split: option.splits)

lemma fold_first_pass_distinct:
  "distinct (map fst acc) \<Longrightarrow> distinct (map fst (fold first_pass_step es acc))"
  by (induction es arbitrary: acc) (auto simp add: first_pass_step_distinct)

lemma first_pass_step_fresh:
  "(\<forall>k n. map_of acc k = Some n \<longrightarrow> children n = [] \<and> parent n = None) \<Longrightarrow>
   map_of (first_pass_step e acc) k = Some n \<Longrightarrow> children n = [] \<and> parent n = None"
  by (auto simp add: first_pass_step_def update_conv' new_instance_def split: option.splits if_splits)

lemma fold_first_pass_fresh:
  "(\<forall>k n. map_of acc k = Some n \<longrightarrow> children n = [] \<and> parent n = None) \<Longrightarrow>
   map_of (fold first_pass_step es acc) k = Some n \<Longrightarrow> children n = [] \<and> parent n = None"
proof (induction es arbitrary: acc)
  case Nil
  then show ?case by simp
next
  case (Cons e es)
  have "\<forall>k n. map_of (first_pass_step e acc) k = Some n \<longrightarrow> children n = [] \<and> parent n = None"
    using first_pass_step_fresh[OF Cons.prems(1)] by blast
  then show ?case using Cons.IH[of "first_pass_step e acc"] Cons.prems(2) by simp
qed

lemma first_pass_linked: "linked {} (first_pass doc, {})"
proof -
  have d: "distinct (map fst (first_pass doc :: 'a instances))"
    by (simp add: first_pass_def fold_first_pass_distinct)
  have "\<And>k n. map_of (first_pass doc :: 'a instances) k = Some n \<Longrightarrow> children n = [] \<and> parent n = None"
    unfolding first_pass_def by (rule fold_first_pass_fresh[of "[]"]) auto
  then show ?thesis using d by (auto simp add: linked_def)
qed

lemma map_entry_keys: "map fst (AList.map_entry k f al) = map fst al"
  by (induction al) auto

lemma map_of_map_entry_Some:
  "map_of (AList.map_entry k f al) k' = Some n' \<longleftrightarrow>
     (\<exists>n. map_of al k' = Some n \<and> n' = (if k' = k then f n else n))"
  by (auto simp add: map_of_map_entry split: option.splits)

lemma linkedI:
  assumes "distinct (map fst insts)" and "S = snd ` E"
    and "\<And>r n c. map_of insts r = Some n \<Longrightarrow> c \<in> set (children n) \<Longrightarrow> (r, c) \<in> E"
    and "\<And>r n p. map_of insts r = Some n \<Longrightarrow> parent n = Some p \<Longrightarrow> (p, r) \<in> E"
    and "\<And>r n p. map_of insts r = Some n \<Longrightarrow> (p, r) \<in> E \<Longrightarrow> parent n \<noteq> None"
  shows "linked E (insts, S)"
  unfolding linked_def prod.case using assms by blast

lemma linked_distinct: "linked E (insts, S) \<Longrightarrow> distinct (map fst insts)"
  by (simp add: linked_def)

lemma linked_set: "linked E (insts, S) \<Longrightarrow> S = snd ` E"
  by (simp add: linked_def)

lemma linked_children:
  "linked E (insts, S) \<Longrightarrow> map_of insts r = Some n \<Longrightarrow> c \<in> set (children n) \<Longrightarrow> (r, c) \<in> E"
  unfolding linked_def prod.case by blast

lemma linked_parent:
  "linked E (insts, S) \<Longrightarrow> map_of insts r = Some n \<Longrightarrow> parent n = Some p \<Longrightarrow> (p, r) \<in> E"
  unfolding linked_def prod.case by blast

lemma linked_has_parent:
  "linked E (insts, S) \<Longrightarrow> map_of insts r = Some n \<Longrightarrow> (p, r) \<in> E \<Longrightarrow> parent n \<noteq> None"
  unfolding linked_def prod.case by blast

lemma linked_properties:
  assumes "linked E (insts, S)"
  shows "linked E (AList.map_entry r (\<lambda>i. i\<lparr>properties := ps i\<rparr>) insts, S)"
proof (rule linkedI)
  let ?insts' = "AList.map_entry r (\<lambda>i. i\<lparr>properties := ps i\<rparr>) insts"
  have look: "\<And>k n'. map_of ?insts' k = Some n' \<Longrightarrow>
     \<exists>n. map_of insts k = Some n \<and> children n' = children n \<and> parent n' = parent n"
    by (auto simp add: map_of_map_entry_Some split: if_splits)
  show "distinct (map fst ?insts')"
    using linked_distinct[OF assms] by (simp add: map_entry_keys)
  show "S = snd ` E" by (rule linked_set[OF assms])
  show "(k, c) \<in> E" if "map_of ?insts' k = Some n'" "c \<in> set (children n')" for k n' c
  proof -
    from look[OF that(1)] obtain n where n: "map_of insts k = Some n"
      and ch: "children n' = children n" by blast
    show ?thesis using that(2) ch linked_children[OF assms n] by simp
  qed
  show "(p, k) \<in> E" if "map_of ?insts' k = Some n'" "parent n' = Some p" for k n' p
  proof -
    from look[OF that(1)] obtain n where n: "map_of insts k = Some n"
      and pa: "parent n' = parent n" by blast
    show ?thesis using that(2) pa linked_parent[OF assms n] by simp
  qed
  show "parent n' \<noteq> None" if "map_of ?insts' k = Some n'" "(p, k) \<in> E" for k n' p
  proof -
    from look[OF that(1)] obtain n where n: "map_of insts k = Some n"
      and pa: "parent n' = parent n" by blast
    show ?thesis using pa linked_has_parent[OF assms n that(2)] by simp
  qed
qed

lemma extract_properties_linked:
  "extract_properties L r ps insts = Inr insts' \<Longrightarrow> linked E (insts, S) \<Longrightarrow>
     linked E (insts', S) \<and> map fst insts' = map fst insts"
proof (induction ps arbitrary: insts)
  case Nil
  then show ?case by simp
next
  case (Cons p ps)
  from Cons.prems(1) obtain v where v: "extract_property_value L p = Inr v"
    and rest: "extract_properties L r ps
            (AList.map_entry r
               (\<lambda>i. i\<lparr>properties := AList.update (xget p ''name'') v (properties i)\<rparr>) insts) = Inr insts'"
    by (auto split: sum.splits)
  have "linked E (AList.map_entry r
               (\<lambda>i. i\<lparr>properties := AList.update (xget p ''name'') v (properties i)\<rparr>) insts, S)"
    by (rule linked_properties[OF Cons.prems(2)])
  from Cons.IH[OF rest this] show ?case by (simp add: map_entry_keys)
qed

lemma link_one:
  assumes "linked E (insts, S)"
  shows "linked (insert (r, cr) E)
           (AList.map_entry cr (\<lambda>i. i\<lparr>parent := Some r\<rparr>)
              (AList.map_entry r (\<lambda>i. i\<lparr>children := children i @ [cr]\<rparr>) insts),
            insert cr S)"
proof (rule linkedI)
  let ?insts' = "AList.map_entry cr (\<lambda>i. i\<lparr>parent := Some r\<rparr>)
              (AList.map_entry r (\<lambda>i. i\<lparr>children := children i @ [cr]\<rparr>) insts)"
  have look: "\<And>k n'. map_of ?insts' k = Some n' \<Longrightarrow>
     \<exists>n. map_of insts k = Some n \<and> children n' = (if k = r then children n @ [cr] else children n)
        \<and> parent n' = (if k = cr then Some r else parent n)"
    by (auto simp add: map_of_map_entry_Some)
  show "distinct (map fst ?insts')"
    using linked_distinct[OF assms] by (simp add: map_entry_keys)
  show "insert cr S = snd ` insert (r, cr) E" using linked_set[OF assms] by simp
  show "(k, c) \<in> insert (r, cr) E" if "map_of ?insts' k = Some n'" "c \<in> set (children n')" for k n' c
  proof -
    from look[OF that(1)] obtain n where n: "map_of insts k = Some n"
      and ch: "children n' = (if k = r then children n @ [cr] else children n)" by blast
    show ?thesis using that(2) ch linked_children[OF assms n] by (auto split: if_splits)
  qed
  show "(p, k) \<in> insert (r, cr) E" if "map_of ?insts' k = Some n'" "parent n' = Some p" for k n' p
  proof -
    from look[OF that(1)] obtain n where n: "map_of insts k = Some n"
      and pa: "parent n' = (if k = cr then Some r else parent n)" by blast
    show ?thesis using that(2) pa linked_parent[OF assms n] by (auto split: if_splits)
  qed
  show "parent n' \<noteq> None" if "map_of ?insts' k = Some n'" "(p, k) \<in> insert (r, cr) E" for k n' p
  proof -
    from look[OF that(1)] obtain n where n: "map_of insts k = Some n"
      and pa: "parent n' = (if k = cr then Some r else parent n)" by blast
    show ?thesis using that(2) pa linked_has_parent[OF assms n] by (auto split: if_splits)
  qed
qed

lemma map_of_keys: "map_of al k \<noteq> None \<longleftrightarrow> k \<in> fst ` set al"
  by (simp add: map_of_eq_None_iff)

lemma keys_eq: "map fst al' = map fst al \<Longrightarrow> fst ` set al' = fst ` set al"
  by (metis set_map)

lemma link_children_linked:
  "linked E (insts, S) \<Longrightarrow> link_children r cs (insts, S) = (insts', S') \<Longrightarrow>
     linked (E \<union> {(r, cr) | c cr. c \<in> set cs \<and> xget c ''referent'' = Some cr \<and>
                                   cr \<in> fst ` set insts}) (insts', S')
     \<and> map fst insts' = map fst insts"
proof (induction cs arbitrary: insts S E)
  case Nil
  then show ?case by simp
next
  case (Cons c cs)
  show ?case
  proof (cases "xget c ''referent''")
    case None
    then have "link_children r cs (insts, S) = (insts', S')" using Cons.prems(2) by simp
    from Cons.IH[OF Cons.prems(1) this] None show ?thesis
      by (auto elim!: back_subst[of "\<lambda>E. linked E (insts', S')"])
  next
    case (Some cr)
    show ?thesis
    proof (cases "cr \<in> fst ` set insts")
      case False
      then have "map_of insts cr = None" by (simp add: map_of_eq_None_iff)
      then have "link_children r cs (insts, S) = (insts', S')" using Cons.prems(2) Some by simp
      from Cons.IH[OF Cons.prems(1) this] have
        l: "linked (E \<union> {(r, cr) | c cr. c \<in> set cs \<and> xget c ''referent'' = Some cr \<and>
                                   cr \<in> fst ` set insts}) (insts', S')"
        and k: "map fst insts' = map fst insts" by simp_all
      have "E \<union> {(r, cr) | c cr. c \<in> set cs \<and> xget c ''referent'' = Some cr \<and> cr \<in> fst ` set insts}
          = E \<union> {(r, cr) | ca cr. ca \<in> set (c # cs) \<and> xget ca ''referent'' = Some cr \<and> cr \<in> fst ` set insts}"
        using Some False by (auto simp add: image_iff)
      then show ?thesis using l k by simp
    next
      case True
      let ?insts1 = "AList.map_entry cr (\<lambda>i. i\<lparr>parent := Some r\<rparr>)
              (AList.map_entry r (\<lambda>i. i\<lparr>children := children i @ [cr]\<rparr>) insts)"
      from True have "map_of insts cr \<noteq> None" by (simp add: map_of_eq_None_iff)
      then have step: "link_children r cs (?insts1, insert cr S) = (insts', S')"
        using Cons.prems(2) Some by simp
      have k1: "map fst ?insts1 = map fst insts" by (simp add: map_entry_keys)
      have "linked (insert (r, cr) E) (?insts1, insert cr S)" by (rule link_one[OF Cons.prems(1)])
      from Cons.IH[OF this step] have
        l: "linked (insert (r, cr) E \<union> {(r, cr) | c cr. c \<in> set cs \<and> xget c ''referent'' = Some cr \<and>
                                   cr \<in> fst ` set ?insts1}) (insts', S')"
        and k: "map fst insts' = map fst ?insts1" by simp_all
      have ks: "fst ` set ?insts1 = fst ` set insts" using k1 by (rule keys_eq)
      have "insert (r, cr) E \<union> {(r, cr) | c cr. c \<in> set cs \<and> xget c ''referent'' = Some cr \<and> cr \<in> fst ` set insts}
          = E \<union> {(r, cr) | ca cr. ca \<in> set (c # cs) \<and> xget ca ''referent'' = Some cr \<and> cr \<in> fst ` set insts}"
        using Some True by (auto simp add: image_iff)
      then show ?thesis using l k k1 unfolding ks by simp
    qed
  qed
qed

lemma item_edges_Cons:
  "item_edges K (x # xs) =
     (case xget x ''referent'' of None \<Rightarrow> {}
      | Some r \<Rightarrow> if r \<in> K then {(r, cr) | c cr. c \<in> set (xfindall x ''Item'') \<and>
                                      xget c ''referent'' = Some cr \<and> cr \<in> K} else {})
     \<union> item_edges K xs"
  by (auto simp add: item_edges_def split: option.splits)

lemma item_edges_Nil: "item_edges K [] = {}"
  by (simp add: item_edges_def)

lemma second_pass_linked:
  "linked E (insts, S) \<Longrightarrow> second_pass L xs (insts, S) = Inr (insts', S') \<Longrightarrow>
     linked (E \<union> item_edges (fst ` set insts) xs) (insts', S') \<and> map fst insts' = map fst insts"
proof (induction xs arbitrary: insts S E)
  case Nil
  then show ?case by (simp add: item_edges_Nil)
next
  case (Cons x xs)
  show ?case
  proof (cases "xget x ''referent''")
    case None
    then have "second_pass L xs (insts, S) = Inr (insts', S')" using Cons.prems(2) by simp
    from Cons.IH[OF Cons.prems(1) this] None show ?thesis
      by (simp add: item_edges_Cons)
  next
    case (Some r)
    show ?thesis
    proof (cases "r \<in> fst ` set insts")
      case False
      then have "map_of insts r = None" by (simp add: map_of_eq_None_iff)
      then have "second_pass L xs (insts, S) = Inr (insts', S')" using Cons.prems(2) Some by simp
      from Cons.IH[OF Cons.prems(1) this] Some False show ?thesis
        by (simp add: item_edges_Cons)
    next
      case True
      then have known: "map_of insts r \<noteq> None" by (simp add: map_of_eq_None_iff)
      define props where "props = (case xfind x ''Properties'' of None \<Rightarrow> Inr insts
            | Some properties_elem \<Rightarrow> extract_properties L r (xkids properties_elem) insts)"
      from Cons.prems(2) Some known obtain insts1 where
        p1: "props = Inr insts1" and
        rest: "second_pass L xs (link_children r (xfindall x ''Item'') (insts1, S)) = Inr (insts', S')"
        by (auto simp add: props_def split: sum.splits)
      have l1: "linked E (insts1, S) \<and> map fst insts1 = map fst insts"
      proof (cases "xfind x ''Properties''")
        case None
        then show ?thesis using p1 Cons.prems(1) by (simp add: props_def)
      next
        case (Some pe)
        then have "extract_properties L r (xkids pe) insts = Inr insts1" using p1 by (simp add: props_def)
        from extract_properties_linked[OF this Cons.prems(1)] show ?thesis .
      qed
      obtain insts2 S2 where lc: "link_children r (xfindall x ''Item'') (insts1, S) = (insts2, S2)"
        by (cases "link_children r (xfindall x ''Item'') (insts1, S)") auto
      have k1: "fst ` set insts1 = fst ` set insts" using l1 by (metis set_map)
      from link_children_linked[OF conjunct1[OF l1] lc] have
        l2: "linked (E \<union> {(r, cr) | c cr. c \<in> set (xfindall x ''Item'') \<and> xget c ''referent'' = Some cr \<and>
                                   cr \<in> fst ` set insts}) (insts2, S2)"
        and k2: "map fst insts2 = map fst insts1" unfolding k1 by simp_all
      have k2s: "fst ` set insts2 = fst ` set insts" using k2 l1 by (metis set_map)
      from Cons.IH[OF l2] rest lc have
        l3: "linked (E \<union> {(r, cr) | c cr. c \<in> set (xfindall x ''Item'') \<and> xget c ''referent'' = Some cr \<and>
                                   cr \<in> fst ` set insts} \<union> item_edges (fst ` set insts) xs) (insts', S')"
        and k3: "map fst insts' = map fst insts2" unfolding k2s by simp_all
      have "E \<union> {(r, cr) | c cr. c \<in> set (xfindall x ''Item'') \<and> xget c ''referent'' = Some cr \<and>
                                   cr \<in> fst ` set insts} \<union> item_edges (fst ` set insts) xs
          = E \<union> item_edges (fst ` set insts) (x # xs)"
        using Some True by (simp add: item_edges_Cons Un_assoc)
      then show ?thesis using l3 k3 k2 l1 by simp
    qed
  qed
qed

lemma distinct_map_filter_inj:
  "distinct (List.map_filter f xs) \<Longrightarrow> a \<in> set xs \<Longrightarrow> b \<in> set xs \<Longrightarrow>
     f a = Some v \<Longrightarrow> f b = Some v \<Longrightarrow> a = b"
proof (induction xs)
  case Nil
  then show ?case by simp
next
  case (Cons x xs)
  have mem: "\<And>y. y \<in> set xs \<Longrightarrow> f y = Some v \<Longrightarrow> v \<in> set (List.map_filter f xs)"
    by (force simp add: map_filter_def)
  show ?case
  proof (cases "f x")
    case None
    then show ?thesis using Cons by (auto simp add: map_filter_simps)
  next
    case (Some w)
    then have d: "w \<notin> set (List.map_filter f xs)" "distinct (List.map_filter f xs)"
      using Cons.prems(1) by (simp_all add: map_filter_simps)
    show ?thesis
      using Cons.prems(2-5) Cons.IH[OF d(2)] d(1) Some mem by auto
  qed
qed

lemma map_filter_mset_mono:
  "mset xs \<subseteq># mset ys \<Longrightarrow> mset (List.map_filter f xs) \<subseteq># mset (List.map_filter f ys)"
  unfolding map_filter_def mset_map mset_filter
  by (intro image_mset_subseteq_mono multiset_filter_mono)

lemma distinct_mset_mono_list:
  assumes "mset xs \<subseteq># mset ys" and "distinct ys"
  shows "distinct xs"
proof -
  have "count (mset xs) a \<le> 1" for a
  proof -
    have "count (mset xs) a \<le> count (mset ys) a" using assms(1) by (rule mset_subset_eq_count)
    also have "\<dots> \<le> 1" using assms(2) by (simp add: distinct_count_atmost_1)
    finally show ?thesis .
  qed
  then have "count (mset xs) a = (if a \<in> set xs then 1 else 0)" for a
    using count_eq_zero_iff[of "mset xs" a] le_Suc_eq[of "count (mset xs) a" 0] by (auto simp add: le_Suc_eq)
  then show ?thesis by (simp add: distinct_count_atmost_1)
qed

lemma mset_concat_cong:
  "(\<And>k. k \<in> set ks \<Longrightarrow> mset (f k) = mset (g k)) \<Longrightarrow>
     mset (concat (map f ks)) = mset (concat (map g ks))"
  by (induction ks) auto

lemma items_of_end_events:
  "mset (filter (\<lambda>x. xtag x = t) (end_events e)) =
     mset (xdescendants t e) + (if xtag e = t then {#e#} else {#})"
proof (induction t e rule: xdescendants.induct)
  case (1 t tg as tx ks)
  have "mset (concat (map (\<lambda>k. filter (\<lambda>x. xtag x = t) (end_events k)) ks)) =
        mset (concat (map (\<lambda>k. (if xtag k = t then [k] else []) @ xdescendants t k) ks))"
    by (rule mset_concat_cong) (use 1 in auto)
  then show ?case by (simp add: filter_concat comp_def)
qed

lemma child_items_sub_list:
  assumes "\<And>k. k \<in> set ks \<Longrightarrow>
     mset (xfindall k t) + mset (concat (map (\<lambda>x. xfindall x t) (xdescendants t k)))
       \<subseteq># mset (xdescendants t k)"
  shows "mset (filter (\<lambda>k. xtag k = t) ks) +
       mset (concat (map (\<lambda>x. xfindall x t)
          (concat (map (\<lambda>k. (if xtag k = t then [k] else []) @ xdescendants t k) ks))))
     \<subseteq># mset (concat (map (\<lambda>k. (if xtag k = t then [k] else []) @ xdescendants t k) ks))"
  using assms
proof (induction ks)
  case Nil
  then show ?case by simp
next
  case (Cons k ks)
  have ih: "mset (filter (\<lambda>k. xtag k = t) ks) +
       mset (concat (map (\<lambda>x. xfindall x t)
          (concat (map (\<lambda>k. (if xtag k = t then [k] else []) @ xdescendants t k) ks))))
     \<subseteq># mset (concat (map (\<lambda>k. (if xtag k = t then [k] else []) @ xdescendants t k) ks))"
    by (rule Cons.IH) (simp add: Cons.prems)
  have hk: "mset (xfindall k t) + mset (concat (map (\<lambda>x. xfindall x t) (xdescendants t k)))
       \<subseteq># mset (xdescendants t k)"
    by (rule Cons.prems) simp
  then have hk': "mset (concat (map (\<lambda>x. xfindall x t) (xdescendants t k))) \<subseteq># mset (xdescendants t k)"
    by (metis subset_mset.add_decreasing subset_mset.zero_le add.commute subset_mset.order_trans mset_subset_eq_add_right)
  show ?case
  proof (cases "xtag k = t")
    case True
    have "mset (filter (\<lambda>k. xtag k = t) (k # ks)) +
       mset (concat (map (\<lambda>x. xfindall x t)
          (concat (map (\<lambda>k. (if xtag k = t then [k] else []) @ xdescendants t k) (k # ks)))))
      = {#k#} + (mset (xfindall k t) + mset (concat (map (\<lambda>x. xfindall x t) (xdescendants t k))))
        + (mset (filter (\<lambda>k. xtag k = t) ks) +
       mset (concat (map (\<lambda>x. xfindall x t)
          (concat (map (\<lambda>k. (if xtag k = t then [k] else []) @ xdescendants t k) ks)))))"
      using True by (simp add: ac_simps)
    also have "\<dots> \<subseteq># {#k#} + mset (xdescendants t k)
        + mset (concat (map (\<lambda>k. (if xtag k = t then [k] else []) @ xdescendants t k) ks))"
      using hk ih by (intro subset_mset.add_mono) simp_all
    also have "\<dots> = mset (concat (map (\<lambda>k. (if xtag k = t then [k] else []) @ xdescendants t k) (k # ks)))"
      using True by (simp add: ac_simps)
    finally show ?thesis .
  next
    case False
    have "mset (filter (\<lambda>k. xtag k = t) (k # ks)) +
       mset (concat (map (\<lambda>x. xfindall x t)
          (concat (map (\<lambda>k. (if xtag k = t then [k] else []) @ xdescendants t k) (k # ks)))))
      = mset (concat (map (\<lambda>x. xfindall x t) (xdescendants t k)))
        + (mset (filter (\<lambda>k. xtag k = t) ks) +
       mset (concat (map (\<lambda>x. xfindall x t)
          (concat (map (\<lambda>k. (if xtag k = t then [k] else []) @ xdescendants t k) ks)))))"
      using False by (simp add: ac_simps)
    also have "\<dots> \<subseteq># mset (xdescendants t k)
        + mset (concat (map (\<lambda>k. (if xtag k = t then [k] else []) @ xdescendants t k) ks))"
      using hk' ih by (intro subset_mset.add_mono) simp_all
    also have "\<dots> = mset (concat (map (\<lambda>k. (if xtag k = t then [k] else []) @ xdescendants t k) (k # ks)))"
      using False by (simp add: ac_simps)
    finally show ?thesis .
  qed
qed

lemma child_items_sub:
  "mset (xfindall e t) + mset (concat (map (\<lambda>x. xfindall x t) (xdescendants t e)))
     \<subseteq># mset (xdescendants t e)"
proof (induction t e rule: xdescendants.induct)
  case (1 t tg as tx ks)
  show ?case
    using child_items_sub_list[of ks t] 1 by (simp add: xfindall_def)
qed

lemma mset_concat_map:
  "mset (concat (map K xs)) = (\<Sum>x \<in># mset xs. mset (K x))"
  by (induction xs) auto

lemma all_items_mset:
  "mset (all_items doc) =
     mset (xdescendants ''Item'' doc) + (if xtag doc = ''Item'' then {#doc#} else {#})"
  unfolding all_items_def by (rule items_of_end_events)

lemma child_items_of_all_items:
  "mset (concat (map (\<lambda>x. xfindall x ''Item'') (all_items doc))) \<subseteq># mset (all_items doc)"
proof -
  have "mset (concat (map (\<lambda>x. xfindall x ''Item'') (all_items doc)))
      \<subseteq># mset (xfindall doc ''Item'') +
          mset (concat (map (\<lambda>x. xfindall x ''Item'') (xdescendants ''Item'' doc)))"
    by (simp add: mset_concat_map all_items_mset)
  also have "\<dots> \<subseteq># mset (xdescendants ''Item'' doc)" by (rule child_items_sub)
  also have "\<dots> \<subseteq># mset (all_items doc)" by (simp add: all_items_mset)
  finally show ?thesis .
qed

lemma descendants_in_all_items:
  "x \<in> set (xdescendants ''Item'' doc) \<Longrightarrow> x \<in> set (all_items doc)"
proof -
  assume "x \<in> set (xdescendants ''Item'' doc)"
  then have "x \<in># mset (all_items doc)" unfolding all_items_mset by simp
  then show ?thesis by simp
qed

lemma child_in_all_items:
  assumes "a \<in> set (all_items doc)" and "c \<in> set (xfindall a ''Item'')"
  shows "c \<in> set (all_items doc)"
proof -
  have "c \<in> set (concat (map (\<lambda>x. xfindall x ''Item'') (all_items doc)))"
    using assms by auto
  then have "c \<in># mset (concat (map (\<lambda>x. xfindall x ''Item'') (all_items doc)))" by simp
  then have "c \<in># mset (all_items doc)"
    using child_items_of_all_items[of doc] by (rule mset_subset_eqD[rotated])
  then show ?thesis by simp
qed

lemma item_unique:
  "unique_referents doc \<Longrightarrow> a \<in> set (all_items doc) \<Longrightarrow> b \<in> set (all_items doc) \<Longrightarrow>
     xget a ''referent'' = Some r \<Longrightarrow> xget b ''referent'' = Some r \<Longrightarrow> a = b"
  unfolding unique_referents_def by (rule distinct_map_filter_inj)

lemma edge_parent_unique:
  assumes u: "unique_referents doc"
    and x: "x \<in> set (all_items doc)" "c \<in> set (xfindall x ''Item'')"
    and x': "x' \<in> set (all_items doc)" "c' \<in> set (xfindall x' ''Item'')"
    and r: "xget c ''referent'' = Some cr" "xget c' ''referent'' = Some cr"
  shows "x = x'"
proof -
  define PL where "PL = concat (map (\<lambda>x. map (Pair x) (xfindall x ''Item'')) (all_items doc))"
  have snd_PL: "map snd PL = concat (map (\<lambda>x. xfindall x ''Item'') (all_items doc))"
    by (simp add: PL_def map_concat comp_def)
  have "mset (List.map_filter (\<lambda>e. xget e ''referent'') (map snd PL))
      \<subseteq># mset (List.map_filter (\<lambda>e. xget e ''referent'') (all_items doc))"
    unfolding snd_PL by (rule map_filter_mset_mono) (rule child_items_of_all_items)
  then have "distinct (List.map_filter (\<lambda>e. xget e ''referent'') (map snd PL))"
    using u unfolding unique_referents_def by (rule distinct_mset_mono_list)
  moreover have "List.map_filter (\<lambda>e. xget e ''referent'') (map snd PL)
      = List.map_filter (\<lambda>p. xget (snd p) ''referent'') PL"
    by (simp add: map_filter_def comp_def filter_map)
  ultimately have d: "distinct (List.map_filter (\<lambda>p. xget (snd p) ''referent'') PL)" by simp
  have "(x, c) \<in> set PL" "(x', c') \<in> set PL" using x x' by (auto simp add: PL_def)
  from distinct_map_filter_inj[OF d this, of cr] r have "(x, c) = (x', c')" by simp
  then show ?thesis by simp
qed

lemma parse_linked:
  assumes "parse L stem doc = Inr gd"
  shows "\<exists>S. linked (item_edges (fst ` set (instances gd)) (xdescendants ''Item'' doc)) (instances gd, S)
           \<and> root_instances gd = find_roots (instances gd) S
           \<and> fst ` set (instances gd) = {r. \<exists>e \<in> set (all_items doc). declares_node e r}"
proof -
  from assms obtain insts S where
    sp: "second_pass L (xdescendants ''Item'' doc) (first_pass doc, {}) = Inr (insts, S)"
    and gd: "gd = \<lparr>name = get_game_name stem insts (find_roots insts S), instances = insts,
                root_instances = find_roots insts S\<rparr>"
    by (auto simp add: parse_def Let_def split: sum.splits)
  from second_pass_linked[OF first_pass_linked sp] have
    l: "linked (item_edges (fst ` set (first_pass doc :: 'a instances)) (xdescendants ''Item'' doc)) (insts, S)"
    and k: "map fst insts = map fst (first_pass doc :: 'a instances)" by simp_all
  have ks: "fst ` set insts = fst ` set (first_pass doc :: 'a instances)" using k by (metis set_map)
  show ?thesis
    using l unfolding ks[symmetric] by (intro exI[of _ S]) (simp add: gd ks first_pass_keys)
qed

lemma item_edgesD:
  "(r, c) \<in> item_edges K xs \<Longrightarrow>
     \<exists>x \<in> set xs. \<exists>ch \<in> set (xfindall x ''Item'').
        xget x ''referent'' = Some r \<and> r \<in> K \<and> xget ch ''referent'' = Some c \<and> c \<in> K"
  by (simp add: item_edges_def)

lemma edges_same_parent:
  assumes u: "unique_referents doc"
    and e1: "(r, c) \<in> item_edges K (xdescendants ''Item'' doc)"
    and e2: "(p, c) \<in> item_edges K (xdescendants ''Item'' doc)"
  shows "r = p"
proof -
  from item_edgesD[OF e1] obtain x ch where
    x: "x \<in> set (xdescendants ''Item'' doc)" "ch \<in> set (xfindall x ''Item'')"
      "xget x ''referent'' = Some r" "xget ch ''referent'' = Some c" by blast
  from item_edgesD[OF e2] obtain x' ch' where
    x': "x' \<in> set (xdescendants ''Item'' doc)" "ch' \<in> set (xfindall x' ''Item'')"
      "xget x' ''referent'' = Some p" "xget ch' ''referent'' = Some c" by blast
  have "x = x'"
    using edge_parent_unique[OF u descendants_in_all_items[OF x(1)] x(2)
        descendants_in_all_items[OF x'(1)] x'(2) x(4) x'(4)] .
  then show ?thesis using x(3) x'(3) by simp
qed

lemma extract_properties_keys:
  "extract_properties L r ps insts = Inr insts' \<Longrightarrow> map fst insts' = map fst insts"
  by (induction ps arbitrary: insts) (auto simp add: map_entry_keys split: sum.splits)

lemma link_children_keys:
  "map fst (fst (link_children r cs (insts, S))) = map fst insts"
  by (induction cs arbitrary: insts S) (auto simp add: map_entry_keys split: option.splits)

lemma extract_properties_raises:
  "p \<in> set ps \<Longrightarrow> extract_property_value L p = Inl e \<Longrightarrow>
     \<exists>e'. extract_properties L r ps insts = Inl e'"
  by (induction ps arbitrary: insts) (auto split: sum.splits)

lemma second_pass_raises:
  assumes "x \<in> set xs" and "xget x ''referent'' = Some r" and "r \<in> fst ` set insts"
    and "xfind x ''Properties'' = Some pe" and "p \<in> set (xkids pe)"
    and "extract_property_value L p = Inl e"
  shows "\<exists>e'. second_pass L xs (insts, S) = Inl e'"
  using assms(1,3)
proof (induction xs arbitrary: insts S)
  case Nil
  then show ?case by simp
next
  case (Cons y ys)
  have known: "map_of insts r \<noteq> None" using Cons.prems(2) by (simp add: map_of_eq_None_iff)
  show ?case
  proof (cases "second_pass L (y # ys) (insts, S)")
    case (Inl e')
    then show ?thesis by blast
  next
    case (Inr st')
    have "x \<noteq> y"
    proof
      assume "x = y"
      then have "second_pass L (y # ys) (insts, S) =
        (case extract_properties L r (xkids pe) insts of Inl e \<Rightarrow> Inl e
         | Inr insts' \<Rightarrow> second_pass L ys (link_children r (xfindall y ''Item'') (insts', S)))"
        using assms(2,4) known by auto
      moreover from extract_properties_raises[OF assms(5,6)] obtain e'
        where "extract_properties L r (xkids pe) insts = Inl e'" by blast
      ultimately show False using Inr by simp
    qed
    then have xin: "x \<in> set ys" using Cons.prems(1) by simp
    have "\<exists>insts1 S1. second_pass L (y # ys) (insts, S) = second_pass L ys (insts1, S1)
             \<and> map fst insts1 = map fst insts"
    proof (cases "xget y ''referent''")
      case None
      then show ?thesis by auto
    next
      case (Some ry)
      show ?thesis
      proof (cases "map_of insts ry = None")
        case True
        then show ?thesis using Some by auto
      next
        case False
        define props where "props = (case xfind y ''Properties'' of None \<Rightarrow> Inr insts
            | Some properties_elem \<Rightarrow> extract_properties L ry (xkids properties_elem) insts)"
        from Inr Some False obtain insts1 where p1: "props = Inr insts1"
          by (auto simp add: props_def split: sum.splits)
        have k1: "map fst insts1 = map fst insts"
          using p1 by (auto simp add: props_def extract_properties_keys split: option.splits)
        obtain insts2 S2 where lc: "link_children ry (xfindall y ''Item'') (insts1, S) = (insts2, S2)"
          by (cases "link_children ry (xfindall y ''Item'') (insts1, S)") auto
        have "map fst insts2 = map fst insts"
          using link_children_keys[of ry "xfindall y ''Item''" insts1 S] lc k1 by simp
        moreover have "second_pass L (y # ys) (insts, S) = second_pass L ys (insts2, S2)"
          using Some False p1 lc by (auto simp add: props_def)
        ultimately show ?thesis by blast
      qed
    qed
    then obtain insts1 S1 where s: "second_pass L (y # ys) (insts, S) = second_pass L ys (insts1, S1)"
      and k: "map fst insts1 = map fst insts" by blast
    have "r \<in> fst ` set insts1" using Cons.prems(2) k by (metis set_map)
    from Cons.IH[OF xin this] s show ?thesis by simp
  qed
qed

lemmas parse_eval = parse_def first_pass_def first_pass_step_def xget_def xfind_def xfindall_def
  new_instance_def find_roots_def get_game_name_def names_of_class_def map_filter_simps

text \<open>
  C7 (counterexample). Two folders \<open>A\<close> and \<open>B\<close> each contain an item with referent \<open>C\<close>.
  Both list \<open>C\<close> as a child, and the parent of \<open>C\<close> is \<open>B\<close>, the last one linked: the
  child \<open>C\<close> of \<open>A\<close> does not have \<open>A\<close> as its parent.
\<close>

theorem shared_referent_breaks_parent_link:
  "parse digits_lib ''place''
     (Elem ''roblox'' [] None
        [Elem ''Item'' [(''class'', ''Folder''), (''referent'', ''A'')] None
           [Elem ''Item'' [(''class'', ''Part''), (''referent'', ''C'')] None []],
         Elem ''Item'' [(''class'', ''Folder''), (''referent'', ''B'')] None
           [Elem ''Item'' [(''class'', ''Part''), (''referent'', ''C'')] None []]])
   = Inr \<lparr>name = VStr ''place'',
        instances =
          [(''C'', \<lparr>inst_class = ''Part'', referent = ''C'', properties = [],
               children = [], parent = Some ''B''\<rparr>),
           (''A'', \<lparr>inst_class = ''Folder'', referent = ''A'', properties = [],
               children = [''C''], parent = None\<rparr>),
           (''B'', \<lparr>inst_class = ''Folder'', referent = ''B'', properties = [],
               children = [''C''], parent = None\<rparr>)],
        root_instances = [''A'', ''B'']\<rparr>"
  by (simp add: parse_eval)

text \<open>
  C7 (amended). In the node map of a successful parse, every child id in a node's
  \<open>children\<close> list is a key of the map, for every document; and when no referent is
  carried by two node-declaring elements of the document, the referenced node's
  \<open>parent\<close> is the id of the containing node.
\<close>

theorem hierarchy_consistency:
  assumes "parse L stem doc = Inr gd" and "map_of (instances gd) r = Some n"
    and "c \<in> set (children n)"
  shows "\<exists>m. map_of (instances gd) c = Some m \<and> (unique_referents doc \<longrightarrow> parent m = Some r)"
proof -
  from parse_linked[OF assms(1)] obtain S where
    l: "linked (item_edges (fst ` set (instances gd)) (xdescendants ''Item'' doc)) (instances gd, S)"
    by blast
  let ?E = "item_edges (fst ` set (instances gd)) (xdescendants ''Item'' doc)"
  have rc: "(r, c) \<in> ?E" by (rule linked_children[OF l assms(2,3)])
  then have "c \<in> fst ` set (instances gd)" using item_edgesD by fastforce
  then obtain m where m: "map_of (instances gd) c = Some m"
    using map_of_eq_None_iff[of "instances gd" c] by auto
  have "parent m = Some r" if u: "unique_referents doc"
  proof -
    from linked_has_parent[OF l m rc] obtain p where p: "parent m = Some p" by auto
    have "(p, c) \<in> ?E" by (rule linked_parent[OF l m p])
    from edges_same_parent[OF u rc this] p show ?thesis by simp
  qed
  then show ?thesis using m by blast
qed

theorem hierarchy_consistency_witness:
  "unique_referents
     (Elem ''roblox'' [] None
        [Elem ''Item'' [(''class'', ''Folder''), (''referent'', ''A'')] None
           [Elem ''Item'' [(''class'', ''Part''), (''referent'', ''C'')] None []]])
   \<and> (\<exists>gd n m. parse digits_lib ''place''
        (Elem ''roblox'' [] None
           [Elem ''Item'' [(''class'', ''Folder''), (''referent'', ''A'')] None
              [Elem ''Item'' [(''class'', ''Part''), (''referent'', ''C'')] None []]]) = Inr gd
      \<and> map_of (instances gd) ''A'' = Some n \<and> ''C'' \<in> set (children n)
      \<and> map_of (instances gd) ''C'' = Some m \<and> parent m = Some ''A'')"
proof -
  let ?doc = "Elem ''roblox'' [] None
        [Elem ''Item'' [(''class'', ''Folder''), (''referent'', ''A'')] None
           [Elem ''Item'' [(''class'', ''Part''), (''referent'', ''C'')] None []]]"
  let ?n = "\<lparr>inst_class = ''Folder'', referent = ''A'', properties = [],
               children = [''C''], parent = None\<rparr> :: real inst"
  let ?gd = "\<lparr>name = VStr ''place'',
        instances =
          [(''C'', \<lparr>inst_class = ''Part'', referent = ''C'', properties = [],
               children = [], parent = Some ''A''\<rparr>),
           (''A'', ?n)],
        root_instances = [''A'']\<rparr>"
  have u: "unique_referents ?doc"
    by (simp add: unique_referents_def all_items_def map_filter_simps xget_def)
  have e: "parse digits_lib ''place'' ?doc = Inr ?gd" by (simp add: parse_eval)
  have n: "map_of (instances ?gd) ''A'' = Some ?n" by simp
  have c: "''C'' \<in> set (children ?n)" by simp
  from hierarchy_consistency[OF e n c] u obtain m where
    "map_of (instances ?gd) ''C'' = Some m" "parent m = Some ''A''" by blast
  with e n c u show ?thesis by blast
qed

text \<open>
  C10 (counterexample). An item with referent \<open>X\<close> and no class is skipped in the first
  pass, but another item declares \<open>X\<close>; the second pass then visits the skipped element
  under the id \<open>X\<close> and links its child \<open>Y\<close>: \<open>Y\<close> ends with parent \<open>X\<close>, it is in the
  children of \<open>X\<close>, and it is not a root.
\<close>

theorem child_of_skipped_item_linked:
  "parse digits_lib ''place''
     (Elem ''roblox'' [] None
        [Elem ''Item'' [(''class'', ''Folder''), (''referent'', ''X'')] None [],
         Elem ''Item'' [(''referent'', ''X'')] None
           [Elem ''Item'' [(''class'', ''Part''), (''referent'', ''Y'')] None []]])
   = Inr \<lparr>name = VStr ''place'',
        instances =
          [(''X'', \<lparr>inst_class = ''Folder'', referent = ''X'', properties = [],
               children = [''Y''], parent = None\<rparr>),
           (''Y'', \<lparr>inst_class = ''Part'', referent = ''Y'', properties = [],
               children = [], parent = Some ''X''\<rparr>)],
        root_instances = [''X'']\<rparr>"
  by (simp add: parse_eval)

text \<open>
  C10 (amended). In a document in which no referent is carried by two node-declaring
  elements: for every node-declaring element that the first pass skips for lacking an id
  or a class, each of its direct node-declaring children that carries both ends a
  successful parse as a node of the map with \<open>parent\<close> unset, in no \<open>children\<close> list, and
  in the root-id list.
\<close>

theorem children_of_skipped_items_are_roots:
  assumes ok: "parse L stem doc = Inr gd" and u: "unique_referents doc"
    and a: "a \<in> set (all_items doc)" and skipped: "\<forall>r. \<not> declares_node a r"
    and c: "c \<in> set (xfindall a ''Item'')" and dc: "declares_node c cr"
  shows "\<exists>m. map_of (instances gd) cr = Some m \<and> parent m = None \<and>
           cr \<in> set (root_instances gd) \<and>
           (\<forall>r n. map_of (instances gd) r = Some n \<longrightarrow> cr \<notin> set (children n))"
proof -
  from parse_linked[OF ok] obtain S where
    l: "linked (item_edges (fst ` set (instances gd)) (xdescendants ''Item'' doc)) (instances gd, S)"
    and roots: "root_instances gd = find_roots (instances gd) S"
    and keys: "fst ` set (instances gd) = {r. \<exists>e \<in> set (all_items doc). declares_node e r}"
    by blast
  let ?E = "item_edges (fst ` set (instances gd)) (xdescendants ''Item'' doc)"
  have c_item: "c \<in> set (all_items doc)" by (rule child_in_all_items[OF a c])
  have cref: "xget c ''referent'' = Some cr" using dc by (simp add: declares_node_def)
  have no_edge: "(p, cr) \<notin> ?E" for p
  proof
    assume "(p, cr) \<in> ?E"
    from item_edgesD[OF this] obtain x ch where
      x: "x \<in> set (xdescendants ''Item'' doc)" "ch \<in> set (xfindall x ''Item'')"
        "xget x ''referent'' = Some p" "p \<in> fst ` set (instances gd)"
        "xget ch ''referent'' = Some cr" by blast
    have "a = x"
      by (rule edge_parent_unique[OF u a c descendants_in_all_items[OF x(1)] x(2) cref x(5)])
    then have aref: "xget a ''referent'' = Some p" using x(3) by simp
    from x(4) keys obtain e where e: "e \<in> set (all_items doc)" "declares_node e p" by auto
    then have "xget e ''referent'' = Some p" by (simp add: declares_node_def)
    from item_unique[OF u a e(1) aref this] e(2) skipped show False by simp
  qed
  have "cr \<in> fst ` set (instances gd)" using keys c_item dc by auto
  then obtain m where m: "map_of (instances gd) cr = Some m"
    using map_of_eq_None_iff[of "instances gd" cr] by auto
  have pm: "parent m = None"
  proof (cases "parent m")
    case (Some p)
    from linked_parent[OF l m Some] no_edge show ?thesis by simp
  qed simp
  have nochild: "cr \<notin> set (children n)" if "map_of (instances gd) r = Some n" for r n
    using linked_children[OF l that] no_edge by blast
  have "cr \<notin> S" using linked_set[OF l] no_edge by auto
  moreover have "(cr, m) \<in> set (instances gd)" using m by (rule map_of_SomeD)
  ultimately have "cr \<in> set (root_instances gd)"
    using pm unfolding roots find_roots_def by force
  then show ?thesis using m pm nochild by blast
qed

theorem children_of_skipped_items_are_roots_witness:
  "unique_referents
     (Elem ''roblox'' [] None
        [Elem ''Item'' [] None
           [Elem ''Item'' [(''class'', ''Part''), (''referent'', ''Y'')] None []]])
   \<and> (\<forall>r. \<not> declares_node
          (Elem ''Item'' [] None
             [Elem ''Item'' [(''class'', ''Part''), (''referent'', ''Y'')] None []]) r)
   \<and> declares_node (Elem ''Item'' [(''class'', ''Part''), (''referent'', ''Y'')] None []) ''Y''
   \<and> (\<exists>gd m. parse digits_lib ''place''
        (Elem ''roblox'' [] None
           [Elem ''Item'' [] None
              [Elem ''Item'' [(''class'', ''Part''), (''referent'', ''Y'')] None []]]) = Inr gd
      \<and> map_of (instances gd) ''Y'' = Some m \<and> parent m = None
      \<and> ''Y'' \<in> set (root_instances gd))"
proof -
  let ?c = "Elem ''Item'' [(''class'', ''Part''), (''referent'', ''Y'')] None []"
  let ?a = "Elem ''Item'' [] None [?c]"
  let ?doc = "Elem ''roblox'' [] None [?a]"
  let ?gd = "\<lparr>name = VStr ''place'',
          instances = [(''Y'', \<lparr>inst_class = ''Part'', referent = ''Y'', properties = [],
                          children = [], parent = None\<rparr> :: real inst)],
          root_instances = [''Y'']\<rparr>"
  have u: "unique_referents ?doc"
    by (simp add: unique_referents_def all_items_def map_filter_simps xget_def)
  have e: "parse digits_lib ''place'' ?doc = Inr ?gd" by (simp add: parse_eval)
  have a: "?a \<in> set (all_items ?doc)" by (simp add: all_items_def)
  have s: "\<forall>r. \<not> declares_node ?a r" by (simp add: declares_node_def xget_def)
  have c: "?c \<in> set (xfindall ?a ''Item'')" by (simp add: xfindall_def)
  have d: "declares_node ?c ''Y''" by (simp add: declares_node_def xget_def)
  from children_of_skipped_items_are_roots[OF e u a s c d] obtain m where
    "map_of (instances ?gd) ''Y'' = Some m" "parent m = None"
    "''Y'' \<in> set (root_instances ?gd)" by blast
  with u s d e show ?thesis by blast
qed

text \<open>
  C9 (counterexample). The only item of the document carries a referent and no class, so
  the first pass records no node for it and the second pass skips it. Its properties
  element holds a boolean element without text, on which the decoder raises; the element
  is never handed to the decoder, and the parse completes with an empty node map.
\<close>

theorem bool_without_text_in_skipped_item_parses:
  "extract_property_value digits_lib (Elem ''bool'' [(''name'', ''Anchored'')] None [])
     = Inl AttributeError
   \<and> parse digits_lib ''place''
       (Elem ''roblox'' [] None
          [Elem ''Item'' [(''referent'', ''RBX0'')] None
             [Elem ''Properties'' [] None
                [Elem ''bool'' [(''name'', ''Anchored'')] None []]]])
     = Inr \<lparr>name = VStr ''place'', instances = [], root_instances = []\<rparr>"
  by (simp add: parse_eval extract_property_value_def)

text \<open>
  C9 (amended). The decoder raises on every boolean element that has no text. A document
  makes the whole parse raise when such an element is decoded, that is, when it is a child
  of the first \<open>Properties\<close> child of an item below the root element whose referent is a
  key of the node map (some item of the document carries that referent together with a
  class).
\<close>

theorem bool_without_text_aborts_parse:
  "xtag b = ''bool'' \<and> xtext b = None \<longrightarrow>
     extract_property_value L b = Inl AttributeError \<and>
     (\<forall>doc x r pe. x \<in> set (xdescendants ''Item'' doc) \<and> xget x ''referent'' = Some r \<and>
        (\<exists>e \<in> set (all_items doc). declares_node e r) \<and>
        xfind x ''Properties'' = Some pe \<and> b \<in> set (xkids pe) \<longrightarrow>
        (\<exists>err. parse L stem doc = Inl err))"
proof (intro impI conjI allI)
  assume b: "xtag b = ''bool'' \<and> xtext b = None"
  then show raises: "extract_property_value L b = Inl AttributeError"
    by (simp add: extract_property_value_def)
  fix doc x r pe
  assume h: "x \<in> set (xdescendants ''Item'' doc) \<and> xget x ''referent'' = Some r \<and>
        (\<exists>e \<in> set (all_items doc). declares_node e r) \<and>
        xfind x ''Properties'' = Some pe \<and> b \<in> set (xkids pe)"
  then have "r \<in> fst ` set (first_pass doc :: 'a instances)" by (simp add: first_pass_keys)
  from second_pass_raises[OF _ _ this _ _ raises, of x "xdescendants ''Item'' doc" pe "{}"] h
  obtain e' where "second_pass L (xdescendants ''Item'' doc) (first_pass doc, {}) = Inl e'"
    by blast
  then show "\<exists>err. parse L stem doc = Inl err" by (simp add: parse_def)
qed

theorem bool_without_text_aborts_parse_witness:
  "extract_property_value digits_lib (Elem ''bool'' [(''name'', ''Anchored'')] None [])
     = Inl AttributeError
   \<and> parse digits_lib ''place''
       (Elem ''roblox'' [] None
          [Elem ''Item'' [(''class'', ''Part''), (''referent'', ''RBX0'')] None
             [Elem ''Properties'' [] None
                [Elem ''bool'' [(''name'', ''Anchored'')] None []]]])
     = Inl AttributeError"
proof -
  let ?b = "Elem ''bool'' [(''name'', ''Anchored'')] None []"
  let ?pe = "Elem ''Properties'' [] None [?b]"
  let ?x = "Elem ''Item'' [(''class'', ''Part''), (''referent'', ''RBX0'')] None [?pe]"
  let ?doc = "Elem ''roblox'' [] None [?x]"
  have "xtag ?b = ''bool'' \<and> xtext ?b = None" by simp
  with bool_without_text_aborts_parse[of ?b digits_lib "''place''"]
  have 1: "extract_property_value digits_lib ?b = Inl AttributeError"
    and 2: "\<And>doc x r pe. x \<in> set (xdescendants ''Item'' doc) \<and> xget x ''referent'' = Some r \<and>
        (\<exists>e \<in> set (all_items doc). declares_node e r) \<and>
        xfind x ''Properties'' = Some pe \<and> ?b \<in> set (xkids pe) \<Longrightarrow>
        (\<exists>err. parse digits_lib ''place'' doc = Inl err)" by blast+
  have "x \<in> set (xdescendants ''Item'' ?doc) \<and> xget ?x ''referent'' = Some ''RBX0'' \<and>
        (\<exists>e \<in> set (all_items ?doc). declares_node e ''RBX0'') \<and>
        xfind ?x ''Properties'' = Some ?pe \<and> ?b \<in> set (xkids ?pe)" if "x = ?x" for x
    using that by (simp add: all_items_def declares_node_def xget_def xfind_def)
  from 2[of ?x ?doc "''RBX0''" ?pe] this[of ?x]
  obtain err where "parse digits_lib ''place'' ?doc = Inl err" by blast
  moreover have "parse digits_lib ''place'' ?doc = Inl AttributeError"
    by (simp add: parse_eval extract_property_value_def)
  ultimately show ?thesis using 1 by simp
qed

text \<open>
  Two more documents in which a boolean element without text is not decoded: it stands in
  the second \<open>Properties\<close> child of its item, or in the root element, which the second
  pass does not visit.
\<close>

lemma bool_without_text_in_second_properties_parses:
  "parse digits_lib ''place''
       (Elem ''roblox'' [] None
          [Elem ''Item'' [(''class'', ''Part''), (''referent'', ''RBX0'')] None
             [Elem ''Properties'' [] None [],
              Elem ''Properties'' [] None
                [Elem ''bool'' [(''name'', ''Anchored'')] None []]]])
     = Inr \<lparr>name = VStr ''place'',
            instances = [(''RBX0'', \<lparr>inst_class = ''Part'', referent = ''RBX0'', properties = [],
                                    children = [], parent = None\<rparr>)],
            root_instances = [''RBX0'']\<rparr>"
  by (simp add: parse_eval)

lemma bool_without_text_in_root_item_parses:
  "parse digits_lib ''place''
       (Elem ''Item'' [(''class'', ''Part''), (''referent'', ''RBX0'')] None
             [Elem ''Properties'' [] None
                [Elem ''bool'' [(''name'', ''Anchored'')] None []]])
     = Inr \<lparr>name = VStr ''place'',
            instances = [(''RBX0'', \<lparr>inst_class = ''Part'', referent = ''RBX0'', properties = [],
                                    children = [], parent = None\<rparr>)],
            root_instances = [''RBX0'']\<rparr>"
  by (simp add: parse_eval)
section \<open>File-system operations\<close>

lemma fs_le_refl: "fs_le S S"
  by (simp add: fs_le_def)

lemma fs_le_trans: "fs_le S T \<Longrightarrow> fs_le T U \<Longrightarrow> fs_le S U"
  unfolding fs_le_def by (metis)

lemma fs_le_start: "fs_le S T \<Longrightarrow> start T p = start S p"
  by (simp add: fs_le_def start_def)

lemma walk_mono:
  "fs_le S T \<Longrightarrow> walk S cur segs = Inr q \<Longrightarrow> walk T cur segs = Inr q"
proof (induction segs arbitrary: cur)
  case Nil
  then show ?case by simp
next
  case (Cons s rest)
  show ?case
  proof (cases "s = ''..''")
    case True
    then show ?thesis using Cons by simp
  next
    case False
    from Cons.prems(2) False have d: "nodes S (cur @ [s]) = Some Dir"
      and w: "walk S (cur @ [s]) rest = Inr q"
      by (auto split: option.splits node.splits)
    from d Cons.prems(1) have "nodes T (cur @ [s]) = Some Dir" by (simp add: fs_le_def)
    then show ?thesis using False Cons.IH[OF Cons.prems(1) w] by simp
  qed
qed

lemma stat_mono:
  assumes "fs_le S T" and "stat S p = Inr (l, n)"
  shows "\<exists>n'. stat T p = Inr (l, n') \<and> (n = Dir \<longrightarrow> n' = Dir)"
proof (cases "segments p = []")
  case True
  then show ?thesis using assms by (auto simp add: stat_def fs_le_start)
next
  case False
  from assms(2) False obtain cur where w: "walk S (start S p) (butlast (segments p)) = Inr cur"
    by (auto simp add: stat_def split: sum.splits)
  have w': "walk T (start T p) (butlast (segments p)) = Inr cur"
    using walk_mono[OF assms(1) w] by (simp add: fs_le_start[OF assms(1)])
  show ?thesis
  proof (cases "last (segments p) = ''..''")
    case True
    then show ?thesis using assms(2) False w w' by (simp add: stat_def)
  next
    case nd: False
    from assms(2) False w nd have n: "nodes S (cur @ [last (segments p)]) = Some n"
      and l: "l = cur @ [last (segments p)]"
      by (auto simp add: stat_def split: option.splits)
    from n assms(1) obtain n' where "nodes T (cur @ [last (segments p)]) = Some n'"
      "n = Dir \<longrightarrow> n' = Dir"
      unfolding fs_le_def by (cases n) auto
    then show ?thesis using False w' nd l by (simp add: stat_def)
  qed
qed

lemma exists_mono: "fs_le S T \<Longrightarrow> exists S p \<Longrightarrow> exists T p"
proof -
  assume le: "fs_le S T" and "exists S p"
  then obtain l n where "stat S p = Inr (l, n)"
    by (auto simp add: exists_def split: sum.splits)
  from stat_mono[OF le this] show ?thesis by (auto simp add: exists_def)
qed

lemma target_mono: "fs_le S T \<Longrightarrow> target S p = Some l \<Longrightarrow> target T p = Some l"
  by (auto simp add: target_def fs_le_start split: if_splits sum.splits dest: walk_mono)

lemma keeps_refl: "keeps S S" by (simp add: keeps_def)
lemma keeps_trans: "keeps S T \<Longrightarrow> keeps T U \<Longrightarrow> keeps S U" by (simp add: keeps_def)
lemma keeps_fs_le: "keeps S T \<Longrightarrow> fs_le S T" by (simp add: keeps_def fs_le_def)

lemma os_mkdir_result:
  assumes "os_mkdir S p = Inr S'"
  shows "keeps S S' \<and> exists S' p"
proof -
  from assms obtain cur where ne: "segments p \<noteq> []"
    and w: "walk S (start S p) (butlast (segments p)) = Inr cur"
    and nd: "last (segments p) \<noteq> ''..''"
    and fresh: "nodes S (cur @ [last (segments p)]) = None"
    and S': "S' = S\<lparr>nodes := (nodes S)(cur @ [last (segments p)] \<mapsto> Dir)\<rparr>"
    by (auto simp add: os_mkdir_def split: if_splits sum.splits)
  have k: "keeps S S'" using fresh by (auto simp add: keeps_def S')
  have "walk S' (start S' p) (butlast (segments p)) = Inr cur"
    using walk_mono[OF keeps_fs_le[OF k] w] fs_le_start[OF keeps_fs_le[OF k]] by simp
  then have "stat S' p = Inr (cur @ [last (segments p)], Dir)"
    using ne nd by (simp add: stat_def S')
  then show ?thesis using k by (simp add: exists_def)
qed

lemma mkdir_result:
  "mkdir S p parents exist_ok = Inr S' \<Longrightarrow> keeps S S' \<and> exists S' p"
proof (induction S p parents exist_ok arbitrary: S' rule: mkdir.induct)
  case (1 fs p parents exist_ok)
  show ?case
  proof (cases "os_mkdir fs p")
    case (Inr fs')
    then have "S' = fs'" using "1.prems" by (simp add: mkdir.simps[of fs p])
    then show ?thesis using os_mkdir_result[OF Inr] by simp
  next
    case (Inl e)
    show ?thesis
    proof (cases "e = FileNotFoundError")
      case True
      from "1.prems" Inl True obtain fs1 where c: "\<not> (\<not> parents \<or> segments p = [])"
        and m1: "mkdir fs (path_parent p) True True = Inr fs1"
        and m2: "mkdir fs1 p False exist_ok = Inr S'"
        by (auto simp add: mkdir.simps[of fs p] split: if_splits sum.splits)
      from "1.IH"(1)[OF Inl True c m1] have k1: "keeps fs fs1" by simp
      from "1.IH"(2)[OF Inl True c m1 m2] have "keeps fs1 S'" "exists S' p" by simp_all
      then show ?thesis using keeps_trans[OF k1] by simp
    next
      case False
      from "1.prems" Inl False have "S' = fs" "is_dir fs p"
        by (auto simp add: mkdir.simps[of fs p] split: if_splits)
      then show ?thesis by (auto simp add: keeps_refl is_dir_def exists_def split: sum.splits)
    qed
  qed
qed

lemma ensure_dir_result:
  "ensure_dir S p exist_ok = Inr S' \<Longrightarrow> keeps S S' \<and> exists S' p"
  by (auto simp add: ensure_dir_def keeps_refl mkdir_result split: if_splits)

lemma ensure_dir_settled: "exists S p \<Longrightarrow> ensure_dir S p exist_ok = Inr S"
  by (simp add: ensure_dir_def)

lemma write_file_result:
  assumes "write_file S p c = Inr S'"
  shows "\<exists>l. target S p = Some l \<and> S' = S\<lparr>nodes := (nodes S)(l \<mapsto> File c)\<rparr> \<and>
             nodes S l \<noteq> Some Dir"
  using assms
  by (auto simp add: write_file_def target_def split: if_splits sum.splits option.splits node.splits)

lemma write_file_settled:
  assumes "target S p = Some l" and "nodes S l = Some (File c')"
  shows "write_file S p c = Inr (S\<lparr>nodes := (nodes S)(l \<mapsto> File c)\<rparr>)"
  using assms
  by (auto simp add: write_file_def target_def split: if_splits sum.splits)

lemma write_file_fs_le:
  assumes "write_file S p c = Inr S'"
  shows "fs_le S S'"
proof -
  from write_file_result[OF assms] obtain l where
    "S' = S\<lparr>nodes := (nodes S)(l \<mapsto> File c)\<rparr>" "nodes S l \<noteq> Some Dir" by blast
  then show ?thesis by (auto simp add: fs_le_def)
qed

lemma run_op_fs_le: "run_op x S = Inr S' \<Longrightarrow> fs_le S S'"
  by (cases x) (auto dest: ensure_dir_result keeps_fs_le write_file_fs_le)

lemma run_ops_fs_le: "run_ops xs S = Inr S' \<Longrightarrow> fs_le S S'"
proof (induction xs arbitrary: S)
  case Nil
  then show ?case by (simp add: fs_le_refl)
next
  case (Cons x xs)
  then obtain S1 where "run_op x S = Inr S1" "run_ops xs S1 = Inr S'"
    by (auto split: sum.splits)
  then show ?case using Cons.IH run_op_fs_le fs_le_trans by blast
qed

lemma settled_mono: "fs_le S T \<Longrightarrow> settled S x \<Longrightarrow> settled T x"
proof (cases x)
  case (EnsureDir p ex)
  assume "fs_le S T" "settled S x"
  then show ?thesis using EnsureDir by (simp add: exists_mono)
next
  case (WriteFile p c)
  assume le: "fs_le S T" and s: "settled S x"
  from s WriteFile obtain l c' where t: "target S p = Some l" and n: "nodes S l = Some (File c')"
    by (auto split: option.splits node.splits)
  from n le obtain c2 where "nodes T l = Some (File c2)" unfolding fs_le_def by blast
  then show ?thesis using WriteFile target_mono[OF le t] by simp
qed

lemma run_op_settled: "run_op x S = Inr S' \<Longrightarrow> settled S' x"
proof (cases x)
  case (EnsureDir p ex)
  assume "run_op x S = Inr S'"
  then show ?thesis using EnsureDir ensure_dir_result by auto
next
  case (WriteFile p c)
  assume r: "run_op x S = Inr S'"
  then have w: "write_file S p c = Inr S'" using WriteFile by simp
  from write_file_result[OF w] obtain l where t: "target S p = Some l"
    and S': "S' = S\<lparr>nodes := (nodes S)(l \<mapsto> File c)\<rparr>" by blast
  have "target S' p = Some l" using target_mono[OF write_file_fs_le[OF w] t] .
  then show ?thesis using WriteFile S' by simp
qed

lemma run_ops_settled: "run_ops xs S = Inr T \<Longrightarrow> x \<in> set xs \<Longrightarrow> settled T x"
proof (induction xs arbitrary: S)
  case Nil
  then show ?case by simp
next
  case (Cons y ys)
  from Cons.prems(1) obtain S1 where 1: "run_op y S = Inr S1" and 2: "run_ops ys S1 = Inr T"
    by (auto split: sum.splits)
  show ?case
  proof (cases "x = y")
    case True
    then show ?thesis using settled_mono[OF run_ops_fs_le[OF 2] run_op_settled[OF 1]] by simp
  next
    case False
    then show ?thesis using Cons.IH[OF 2] Cons.prems(2) by simp
  qed
qed

lemma writes_override:
  "writes T xs m l = (case writes T xs Map.empty l of Some c \<Rightarrow> Some c | None \<Rightarrow> m l)"
proof (induction xs arbitrary: m)
  case Nil
  then show ?case by simp
next
  case (Cons x xs)
  show ?case
  proof (cases x)
    case (EnsureDir p ex)
    then have e: "\<And>m. writes T (x # xs) m = writes T xs m" by simp
    show ?thesis unfolding e by (rule Cons.IH)
  next
    case (WriteFile p c)
    show ?thesis
    proof (cases "target T p")
      case None
      then have e: "\<And>m. writes T (x # xs) m = writes T xs m" using WriteFile by simp
      show ?thesis unfolding e by (rule Cons.IH)
    next
      case (Some l0)
      have e: "\<And>m. writes T (x # xs) m = writes T xs (m(l0 \<mapsto> c))"
        using WriteFile Some by simp
      have 1: "writes T (x # xs) m l =
          (case writes T xs Map.empty l of Some c \<Rightarrow> Some c | None \<Rightarrow> (m(l0 \<mapsto> c)) l)"
        unfolding e by (rule Cons.IH)
      have 2: "writes T (x # xs) Map.empty l =
          (case writes T xs Map.empty l of Some c \<Rightarrow> Some c | None \<Rightarrow> (Map.empty(l0 \<mapsto> c)) l)"
        unfolding e by (rule Cons.IH)
      show ?thesis unfolding 1 2 by (cases "writes T xs Map.empty l") auto
    qed
  qed
qed

lemma run_ops_keeps_content:
  "run_ops xs S = Inr T \<Longrightarrow> writes T xs Map.empty l = None \<Longrightarrow>
     nodes S l = Some (File c) \<Longrightarrow> nodes T l = Some (File c)"
proof (induction xs arbitrary: S)
  case Nil
  then show ?case by simp
next
  case (Cons x xs)
  from Cons.prems(1) obtain S1 where 1: "run_op x S = Inr S1" and 2: "run_ops xs S1 = Inr T"
    by (auto split: sum.splits)
  show ?case
  proof (cases x)
    case (EnsureDir p ex)
    then have "keeps S S1" using 1 ensure_dir_result by auto
    then have "nodes S1 l = Some (File c)" using Cons.prems(3) by (simp add: keeps_def)
    then show ?thesis using Cons.IH[OF 2] Cons.prems(2) EnsureDir by simp
  next
    case (WriteFile p c')
    then have w: "write_file S p c' = Inr S1" using 1 by simp
    from write_file_result[OF w] obtain l' where t: "target S p = Some l'"
      and S1: "S1 = S\<lparr>nodes := (nodes S)(l' \<mapsto> File c')\<rparr>" by blast
    have "fs_le S T" using run_ops_fs_le[OF Cons.prems(1)] .
    then have tT: "target T p = Some l'" using t by (rule target_mono)
    have "writes T xs (Map.empty(l' \<mapsto> c')) l = None"
      using Cons.prems(2) WriteFile tT by simp
    then have none: "writes T xs Map.empty l = None" and "l \<noteq> l'"
      using writes_override[of T xs "Map.empty(l' \<mapsto> c')" l]
      by (auto split: option.splits if_splits)
    then have "nodes S1 l = Some (File c)" using Cons.prems(3) S1 by simp
    then show ?thesis using Cons.IH[OF 2 none] by simp
  qed
qed

lemma run_ops_last_write:
  "run_ops xs S = Inr T \<Longrightarrow> writes T xs Map.empty l = Some c \<Longrightarrow> nodes T l = Some (File c)"
proof (induction xs arbitrary: S)
  case Nil
  then show ?case by simp
next
  case (Cons x xs)
  from Cons.prems(1) obtain S1 where 1: "run_op x S = Inr S1" and 2: "run_ops xs S1 = Inr T"
    by (auto split: sum.splits)
  show ?case
  proof (cases x)
    case (EnsureDir p ex)
    then show ?thesis using Cons.IH[OF 2] Cons.prems(2) by simp
  next
    case (WriteFile p c')
    then have w: "write_file S p c' = Inr S1" using 1 by simp
    from write_file_result[OF w] obtain l' where t: "target S p = Some l'"
      and S1: "S1 = S\<lparr>nodes := (nodes S)(l' \<mapsto> File c')\<rparr>" by blast
    have "fs_le S T" using run_ops_fs_le[OF Cons.prems(1)] .
    then have tT: "target T p = Some l'" using t by (rule target_mono)
    have wr: "writes T xs (Map.empty(l' \<mapsto> c')) l = Some c"
      using Cons.prems(2) WriteFile tT by simp
    show ?thesis
    proof (cases "writes T xs Map.empty l")
      case None
      then have "l = l'" "c = c'"
        using wr writes_override[of T xs "Map.empty(l' \<mapsto> c')" l]
        by (auto split: if_splits)
      moreover have "nodes S1 l' = Some (File c')" using S1 by simp
      ultimately show ?thesis using run_ops_keeps_content[OF 2, of l' c'] None by simp
    next
      case (Some c2)
      then have "c2 = c" using wr writes_override[of T xs "Map.empty(l' \<mapsto> c')" l] by simp
      then show ?thesis using Cons.IH[OF 2] Some by simp
    qed
  qed
qed

lemma writes_settled_mono:
  "(\<And>x. x \<in> set xs \<Longrightarrow> settled U x) \<Longrightarrow> fs_le U U1 \<Longrightarrow> writes U1 xs m = writes U xs m"
proof (induction xs arbitrary: m)
  case Nil
  then show ?case by simp
next
  case (Cons x xs)
  have ih: "\<And>m. writes U1 xs m = writes U xs m"
    by (rule Cons.IH) (simp_all add: Cons.prems)
  show ?case
  proof (cases x)
    case (EnsureDir p ex)
    then show ?thesis using ih by simp
  next
    case (WriteFile p c)
    have "settled U x" by (rule Cons.prems(1)) simp
    then obtain l where t: "target U p = Some l" using WriteFile by (auto split: option.splits)
    from target_mono[OF Cons.prems(2) t] t show ?thesis using WriteFile ih by simp
  qed
qed

lemma run_ops_settled_result:
  "(\<And>x. x \<in> set xs \<Longrightarrow> settled U x) \<Longrightarrow>
     run_ops xs U = Inr (U\<lparr>nodes := (\<lambda>l. case writes U xs Map.empty l of
                                          Some c \<Rightarrow> Some (File c) | None \<Rightarrow> nodes U l)\<rparr>)"
proof (induction xs arbitrary: U)
  case Nil
  then show ?case by simp
next
  case (Cons x xs)
  have sx: "settled U x" by (rule Cons.prems) simp
  show ?case
  proof (cases x)
    case (EnsureDir p ex)
    then have "run_op x U = Inr U" using sx by (simp add: ensure_dir_settled)
    moreover have "run_ops xs U = Inr (U\<lparr>nodes := (\<lambda>l. case writes U xs Map.empty l of
                                          Some c \<Rightarrow> Some (File c) | None \<Rightarrow> nodes U l)\<rparr>)"
      by (rule Cons.IH) (simp add: Cons.prems)
    ultimately show ?thesis using EnsureDir by simp
  next
    case (WriteFile p c)
    from sx WriteFile obtain l c0 where t: "target U p = Some l" and n: "nodes U l = Some (File c0)"
      by (auto split: option.splits node.splits)
    define U1 where "U1 = U\<lparr>nodes := (nodes U)(l \<mapsto> File c)\<rparr>"
    have r1: "run_op x U = Inr U1" using WriteFile write_file_settled[OF t n] by (simp add: U1_def)
    have le: "fs_le U U1" by (rule run_op_fs_le[OF r1])
    have s1: "\<And>y. y \<in> set xs \<Longrightarrow> settled U1 y"
      using settled_mono[OF le] Cons.prems by simp
    have w1: "\<And>m. writes U1 xs m = writes U xs m"
      by (rule writes_settled_mono[OF _ le]) (simp add: Cons.prems)
    have "run_ops xs U1 = Inr (U1\<lparr>nodes := (\<lambda>l. case writes U1 xs Map.empty l of
                                          Some c \<Rightarrow> Some (File c) | None \<Rightarrow> nodes U1 l)\<rparr>)"
      by (rule Cons.IH[OF s1])
    moreover have "(\<lambda>l'. case writes U1 xs Map.empty l' of
                 Some c \<Rightarrow> Some (File c) | None \<Rightarrow> nodes U1 l')
        = (\<lambda>l'. case writes U (x # xs) Map.empty l' of
                 Some c \<Rightarrow> Some (File c) | None \<Rightarrow> nodes U l')"
    proof
      fix l'
      have n1: "nodes U1 l' = (if l' = l then Some (File c) else nodes U l')"
        by (simp add: U1_def)
      have wx: "writes U (x # xs) Map.empty l' =
          (case writes U xs Map.empty l' of Some c \<Rightarrow> Some c | None \<Rightarrow> (Map.empty(l \<mapsto> c)) l')"
        using writes_override[of U xs "Map.empty(l \<mapsto> c)" l'] WriteFile t by simp
      show "(case writes U1 xs Map.empty l' of Some c \<Rightarrow> Some (File c) | None \<Rightarrow> nodes U1 l')
        = (case writes U (x # xs) Map.empty l' of Some c \<Rightarrow> Some (File c) | None \<Rightarrow> nodes U l')"
        unfolding w1 wx n1 by (cases "writes U xs Map.empty l'") auto
    qed
    ultimately show ?thesis using r1 by (simp add: U1_def)
  qed
qed

lemma run_ops_idempotent:
  assumes "run_ops xs S = Inr T"
  shows "run_ops xs T = Inr T"
proof -
  have "run_ops xs T = Inr (T\<lparr>nodes := (\<lambda>l. case writes T xs Map.empty l of
                                          Some c \<Rightarrow> Some (File c) | None \<Rightarrow> nodes T l)\<rparr>)"
    by (rule run_ops_settled_result) (rule run_ops_settled[OF assms])
  moreover have "(\<lambda>l. case writes T xs Map.empty l of
                   Some c \<Rightarrow> Some (File c) | None \<Rightarrow> nodes T l) = nodes T"
  proof
    fix l
    show "(case writes T xs Map.empty l of Some c \<Rightarrow> Some (File c) | None \<Rightarrow> nodes T l) = nodes T l"
      using run_ops_last_write[OF assms, of l] by (auto split: option.splits)
  qed
  ultimately show ?thesis by simp
qed

lemma run_plan_idempotent: "run_plan plan S = Inr T \<Longrightarrow> run_plan plan T = Inr T"
  by (auto simp add: run_plan_def run_ops_idempotent split: sum.splits option.splits)

lemma run_plan_fs_le: "run_plan plan S = Inr T \<Longrightarrow> fs_le S T"
  by (auto simp add: run_plan_def run_ops_fs_le split: sum.splits option.splits)


section \<open>Emission follows a plan\<close>

lemma run_ops_append:
  "run_ops (xs @ ys) fs = (case run_ops xs fs of Inl e \<Rightarrow> Inl e | Inr fs' \<Rightarrow> run_ops ys fs')"
  by (induction xs arbitrary: fs) (auto split: sum.splits)

lemma plannedI: "(\<And>fs. f fs = run_plan plan fs) \<Longrightarrow> planned f"
  unfolding planned_def by blast

lemma planned_cong: "(\<And>fs. f fs = g fs) \<Longrightarrow> planned g \<Longrightarrow> planned f"
  unfolding planned_def by simp

lemma planned_Inr: "planned (\<lambda>fs. Inr fs)"
  by (rule plannedI[of _ "([], None)"]) (simp add: run_plan_def)

lemma planned_Inl: "planned (\<lambda>fs. Inl e)"
  by (rule plannedI[of _ "([], Some e)"]) (simp add: run_plan_def)

lemma planned_ensure_dir: "planned (\<lambda>fs. ensure_dir fs p ex)"
  by (rule plannedI[of _ "([EnsureDir p ex], None)"]) (simp add: run_plan_def split: sum.splits)

lemma planned_write_file: "planned (\<lambda>fs. write_file fs p c)"
  by (rule plannedI[of _ "([WriteFile p c], None)"]) (simp add: run_plan_def split: sum.splits)

lemma planned_bind:
  assumes "planned f" and "planned g"
  shows "planned (\<lambda>fs. case f fs of Inl e \<Rightarrow> Inl e | Inr fs' \<Rightarrow> g fs')"
proof -
  from assms obtain xs e1 ys e2 where f: "\<And>fs. f fs = run_plan (xs, e1) fs"
    and g: "\<And>fs. g fs = run_plan (ys, e2) fs"
    unfolding planned_def by (metis surj_pair)
  show ?thesis
  proof (cases e1)
    case None
    show ?thesis
      by (rule plannedI[of _ "(xs @ ys, e2)"])
         (simp add: f g None run_plan_def run_ops_append split: sum.splits)
  next
    case (Some e)
    show ?thesis
      by (rule plannedI[of _ "(xs, Some e)"])
         (simp add: f g Some run_plan_def split: sum.splits)
  qed
qed

lemma planned_if: "planned f \<Longrightarrow> planned g \<Longrightarrow> planned (\<lambda>fs. if b then f fs else g fs)"
  by (cases b) simp_all

lemma planned_write_source: "planned (\<lambda>fs. write_source fs p v)"
proof (cases v)
  case (VStr s)
  then show ?thesis by (simp add: write_source_def planned_write_file)
next
  case (VInt n)
  have "planned (\<lambda>fs. case write_file fs p (Text []) of Inl e \<Rightarrow> Inl e | Inr fs' \<Rightarrow> Inl TypeError)"
    by (rule planned_bind[OF planned_write_file planned_Inl])
  then show ?thesis using VInt by (simp add: write_source_def)
next
  case (VFloat x)
  have "planned (\<lambda>fs. case write_file fs p (Text []) of Inl e \<Rightarrow> Inl e | Inr fs' \<Rightarrow> Inl TypeError)"
    by (rule planned_bind[OF planned_write_file planned_Inl])
  then show ?thesis using VFloat by (simp add: write_source_def)
next
  case (VBool b)
  have "planned (\<lambda>fs. case write_file fs p (Text []) of Inl e \<Rightarrow> Inl e | Inr fs' \<Rightarrow> Inl TypeError)"
    by (rule planned_bind[OF planned_write_file planned_Inl])
  then show ?thesis using VBool by (simp add: write_source_def)
next
  case (VDict d)
  have "planned (\<lambda>fs. case write_file fs p (Text []) of Inl e \<Rightarrow> Inl e | Inr fs' \<Rightarrow> Inl TypeError)"
    by (rule planned_bind[OF planned_write_file planned_Inl])
  then show ?thesis using VDict by (simp add: write_source_def)
qed

lemma planned_create_meta_file: "planned (create_meta_file i p)"
proof (cases "meta_properties (properties i) []")
  case (Inl e)
  show ?thesis
    by (rule planned_cong[OF _ planned_Inl[of e]]) (simp add: create_meta_file_def Inl)
next
  case (Inr meta)
  show ?thesis
  proof (cases "inst_class i \<notin> set [''Folder''] \<or> length meta > 0")
    case False
    show ?thesis
      by (rule planned_cong[OF _ planned_Inr]) (use False in \<open>simp add: create_meta_file_def Inr\<close>)
  next
    case True
    show ?thesis
    proof (cases "normalize_value (instance_name i)")
      case (Inl e)
      show ?thesis
        by (rule planned_cong[OF _ planned_Inl[of e]])
           (use True in \<open>simp add: create_meta_file_def Inr Inl\<close>)
    next
      case nm: (Inr nm)
      show ?thesis
        by (rule planned_cong[OF _ planned_write_file])
           (use True in \<open>simp add: create_meta_file_def Inr nm\<close>)
    qed
  qed
qed

lemma planned_process_children:
  assumes "\<And>i p r. planned (process_instance d insts i p r)"
  shows "planned (process_children d insts cs p)"
proof (induction cs)
  case Nil
  show ?case by (rule planned_cong[OF _ planned_Inr]) simp
next
  case (Cons c cs)
  show ?case
  proof (cases "map_of insts c")
    case None
    show ?thesis by (rule planned_cong[OF _ Cons.IH]) (simp add: None)
  next
    case (Some child)
    show ?thesis
      by (rule planned_cong[OF _ planned_bind[OF assms[of child p False] Cons.IH]])
         (simp add: Some)
  qed
qed

lemma planned_script_children:
  assumes "\<And>i p r. planned (process_instance d insts i p r)"
  shows "planned (script_children d insts nm cs p)"
proof (induction cs)
  case Nil
  show ?case by (rule planned_cong[OF _ planned_Inr]) simp
next
  case (Cons c cs)
  show ?case
  proof (cases "map_of insts c")
    case None
    show ?thesis by (rule planned_cong[OF _ Cons.IH]) (simp add: None)
  next
    case (Some child)
    show ?thesis
      by (rule planned_cong[OF _ planned_bind[OF planned_ensure_dir[of "path_div p nm" True]
                planned_bind[OF assms[of child "path_div p nm" False] Cons.IH]]])
         (simp add: Some Let_def)
  qed
qed

lemma planned_process_instance_Suc:
  assumes cs: "\<And>i p. planned (create_script_file d insts i p)"
    and pc: "\<And>cs p. planned (process_children d insts cs p)"
  shows "planned (process_instance (Suc d) insts i p r)"
proof (cases "inst_class i \<in> set script_classes")
  case True
  show ?thesis by (rule planned_cong[OF _ cs[of i p]]) (simp add: True)
next
  case False
  show ?thesis
  proof (cases "normalize_value (instance_name i)")
    case (Inl e)
    show ?thesis by (rule planned_cong[OF _ planned_Inl[of e]]) (simp add: False Inl)
  next
    case (Inr dir_name)
    show ?thesis
    proof (cases "children i \<noteq> [] \<or> r \<or> properties i \<noteq> []")
      case no: False
      show ?thesis by (rule planned_cong[OF _ planned_Inr]) (use no in \<open>simp add: False Inr\<close>)
    next
      case yes: True
      define reuse where "reuse = (r \<and> inst_class i \<in> set (parts p))"
      define instance_path where "instance_path = (if reuse then p else path_div p dir_name)"
      have first: "planned (\<lambda>fs. if reuse then Inr fs else ensure_dir fs instance_path True)"
        by (rule planned_if[OF planned_Inr planned_ensure_dir])
      show ?thesis
        by (rule planned_cong[OF _ planned_bind[OF first
                planned_bind[OF planned_create_meta_file[of i instance_path]
                   pc[of "children i" instance_path]]]])
           (use yes in \<open>auto simp add: False Inr Let_def reuse_def instance_path_def cong: sum.case_cong\<close>)
    qed
  qed
qed

lemma planned_create_script_file_Suc:
  assumes sc: "\<And>nm cs p. planned (script_children d insts nm cs p)"
  shows "planned (create_script_file (Suc d) insts i p)"
proof (cases "normalize_value (instance_name i)")
  case (Inl e)
  show ?thesis by (rule planned_cong[OF _ planned_Inl[of e]]) (simp add: Inl)
next
  case (Inr nm)
  define script_path where "script_path = path_div p (nm @ script_extension (inst_class i))"
  define src where "src = (case map_of (properties i) (Some ''Source'') of
                     Some v \<Rightarrow> v | None \<Rightarrow> VStr [])"
  show ?thesis
  proof (cases "children i \<noteq> []")
    case True
    show ?thesis
      by (rule planned_cong[OF _ planned_bind[OF planned_write_source[of script_path src]
               planned_bind[OF planned_create_meta_file[of i "path_parent script_path"]
                  sc[of nm "children i" p]]]])
         (use True in \<open>simp add: Inr Let_def script_path_def src_def cong: sum.case_cong\<close>)
  next
    case False
    show ?thesis
      by (rule planned_cong[OF _ planned_bind[OF planned_write_source[of script_path src]
               planned_Inr]])
         (use False in \<open>simp add: Inr Let_def script_path_def src_def cong: sum.case_cong\<close>)
  qed
qed

lemma planned_placement:
  "(\<forall>i p r. planned (process_instance d insts i p r)) \<and>
   (\<forall>i p. planned (create_script_file d insts i p))"
proof (induction d)
  case 0
  show ?case
    by (auto intro: planned_cong[OF _ planned_Inl[of RecursionError]])
next
  case (Suc d)
  have pi: "\<And>i p r. planned (process_instance d insts i p r)" using Suc by blast
  have cs: "\<And>i p. planned (create_script_file d insts i p)" using Suc by blast
  have pc: "\<And>cs p. planned (process_children d insts cs p)"
    by (rule planned_process_children[OF pi])
  have sc: "\<And>nm cs p. planned (script_children d insts nm cs p)"
    by (rule planned_script_children[OF pi])
  show ?case
    using planned_process_instance_Suc[OF cs pc] planned_create_script_file_Suc[OF sc]
    by blast
qed

lemma planned_process_instance: "planned (process_instance d insts i p r)"
  using planned_placement by blast

lemma planned_process_children': "planned (process_children d insts cs p)"
  by (rule planned_process_children[OF planned_process_instance])

lemma planned_script_children': "planned (script_children d insts nm cs p)"
  by (rule planned_script_children[OF planned_process_instance])

lemma planned_standard_directory: "planned (standard_directory v base)"
proof (cases v)
  case (PStr s)
  show ?thesis
    by (rule planned_cong[OF _ planned_if[OF planned_Inl[of TypeError] planned_Inr, of "py_in ''$path'' s"]])
       (simp add: standard_directory_def PStr)
next
  case (PObj kvs)
  show ?thesis
  proof (cases "map_of kvs ''$path''")
    case None
    show ?thesis
      by (rule planned_cong[OF _ planned_Inr]) (simp add: standard_directory_def PObj None)
  next
    case (Some x)
    show ?thesis
    proof (cases x)
      case (PStr s)
      show ?thesis
        by (rule planned_cong[OF _ planned_ensure_dir[of "path_div base s" True]])
           (simp add: standard_directory_def PObj Some PStr)
    next
      case inner: (PObj y)
      show ?thesis
        by (rule planned_cong[OF _ planned_Inl[of TypeError]])
           (simp add: standard_directory_def PObj Some inner)
    qed
  qed
qed

lemma planned_directories_list:
  assumes "\<And>k kvs' b. (k, PObj kvs') \<in> set kvs \<Longrightarrow>
     planned (create_standard_directories kvs' b :: 'c fs \<Rightarrow> error + 'c fs)"
  shows "planned (create_standard_directories kvs base :: 'c fs \<Rightarrow> error + 'c fs)"
  using assms
proof (induction kvs)
  case Nil
  show ?case by (rule planned_cong[OF _ planned_Inr]) simp
next
  case (Cons kv rest)
  obtain key v where kv: "kv = (key, v)" by (cases kv)
  have ih: "planned (create_standard_directories rest base :: 'c fs \<Rightarrow> error + 'c fs)"
  proof (rule Cons.IH)
    fix k kvs' b
    assume "(k, PObj kvs') \<in> set rest"
    then have "(k, PObj kvs') \<in> set (kv # rest)" by simp
    then show "planned (create_standard_directories kvs' b :: 'c fs \<Rightarrow> error + 'c fs)"
      by (rule Cons.prems)
  qed
  show ?case
  proof (cases "py_startswith key ''$''")
    case True
    show ?thesis by (rule planned_cong[OF _ ih]) (simp add: kv True)
  next
    case False
    have inner: "planned (\<lambda>fs1 :: 'c fs. case v of PObj kvs' \<Rightarrow> create_standard_directories kvs' base fs1
                    | PStr s \<Rightarrow> Inr fs1)"
    proof (cases v)
      case (PStr s)
      show ?thesis by (rule planned_cong[OF _ planned_Inr]) (simp add: PStr)
    next
      case (PObj kvs')
      have "planned (create_standard_directories kvs' base :: 'c fs \<Rightarrow> error + 'c fs)"
        by (rule Cons.prems[of key]) (simp add: kv PObj)
      then show ?thesis by (rule planned_cong[rotated]) (simp add: PObj)
    qed
    show ?thesis
      by (rule planned_cong[OF _ planned_bind[OF planned_standard_directory[of v base]
                planned_bind[OF inner ih]]])
         (simp add: kv False)
  qed
qed

lemma planned_directories_tree:
  "v = PObj kvs \<Longrightarrow> planned (create_standard_directories kvs base :: 'c fs \<Rightarrow> error + 'c fs)"
proof (induction v arbitrary: kvs base)
  case (PStr s)
  then show ?case by simp
next
  case (PObj x)
  show ?case
  proof (rule planned_directories_list)
    fix k kvs' b
    assume "(k, PObj kvs') \<in> set kvs"
    then have "(k, PObj kvs') \<in> set x" using PObj.prems by simp
    then show "planned (create_standard_directories kvs' b :: 'c fs \<Rightarrow> error + 'c fs)"
      using PObj.IH[of "(k, PObj kvs')" "PObj kvs'" kvs' b] by simp
  qed
qed

lemma planned_create_standard_directories:
  "planned (create_standard_directories kvs base)"
  by (rule planned_directories_tree[OF refl])

lemma planned_generate_project_json: "planned (generate_project_json gd out)"
  by (rule planned_cong[OF _ planned_bind[OF planned_write_file
        planned_create_standard_directories]])
     (simp add: generate_project_json_def)

lemma process_roots_planned:
  "\<exists>plan w. \<forall>fs. process_roots d insts src rs ws fs =
      (case run_plan plan fs of Inl e \<Rightarrow> Inl e | Inr fs' \<Rightarrow> Inr (w, fs'))"
proof (induction rs arbitrary: ws)
  case Nil
  show ?case
    by (rule exI[of _ "([], None)"], rule exI[of _ ws]) (simp add: run_plan_def)
next
  case (Cons r rs)
  show ?case
  proof (cases "map_of insts r")
    case None
    then show ?thesis using Cons.IH[of ws] by simp
  next
    case (Some i)
    show ?thesis
    proof (cases "inst_class i = ''Workspace''")
      case True
      let ?wp = "path_div src ''Workspace''"
      from Cons.IH[of "Some (i, ?wp)"] obtain plan w where
        rest: "\<And>fs. process_roots d insts src rs (Some (i, ?wp)) fs =
          (case run_plan plan fs of Inl e \<Rightarrow> Inl e | Inr fs' \<Rightarrow> Inr (w, fs'))" by blast
      have "planned (\<lambda>fs. case ensure_dir fs ?wp False of Inl e \<Rightarrow> Inl e
              | Inr fs1 \<Rightarrow> (case create_meta_file i ?wp fs1 of Inl e \<Rightarrow> Inl e
                  | Inr fs2 \<Rightarrow> run_plan plan fs2))"
        by (intro planned_bind planned_ensure_dir planned_create_meta_file plannedI[of _ plan] refl)
      then obtain plan' where p': "\<And>fs. (case ensure_dir fs ?wp False of Inl e \<Rightarrow> Inl e
              | Inr fs1 \<Rightarrow> (case create_meta_file i ?wp fs1 of Inl e \<Rightarrow> Inl e
                  | Inr fs2 \<Rightarrow> run_plan plan fs2)) = run_plan plan' fs"
        unfolding planned_def by blast
      show ?thesis
        by (rule exI[of _ plan'], rule exI[of _ w])
           (auto simp add: Some True Let_def rest p'[symmetric] split: sum.splits)
    next
      case False
      from Cons.IH[of ws] obtain plan w where
        rest: "\<And>fs. process_roots d insts src rs ws fs =
          (case run_plan plan fs of Inl e \<Rightarrow> Inl e | Inr fs' \<Rightarrow> Inr (w, fs'))" by blast
      have "planned (\<lambda>fs. case process_instance d insts i src True fs of Inl e \<Rightarrow> Inl e
              | Inr fs1 \<Rightarrow> run_plan plan fs1)"
        by (intro planned_bind planned_process_instance plannedI[of _ plan] refl)
      then obtain plan' where p': "\<And>fs. (case process_instance d insts i src True fs of Inl e \<Rightarrow> Inl e
              | Inr fs1 \<Rightarrow> run_plan plan fs1) = run_plan plan' fs"
        unfolding planned_def by blast
      show ?thesis
        by (rule exI[of _ plan'], rule exI[of _ w])
           (auto simp add: Some False rest p'[symmetric] split: sum.splits)
    qed
  qed
qed

lemma planned_generate_project: "planned (generate_project limit gd out)"
proof -
  define src where "src = path_div out ''src''"
  from process_roots_planned[of limit "instances gd" src "root_instances gd" None]
  obtain plan w where roots: "\<And>fs. process_roots limit (instances gd) src (root_instances gd) None fs =
      (case run_plan plan fs of Inl e \<Rightarrow> Inl e | Inr fs' \<Rightarrow> Inr (w, fs'))" by blast
  have last: "planned (\<lambda>fs3. case w of None \<Rightarrow> Inr fs3
        | Some (workspace_instance, workspace_path) \<Rightarrow>
            process_children limit (instances gd) (children workspace_instance) workspace_path fs3)"
  proof (cases w)
    case None
    show ?thesis by (rule planned_cong[OF _ planned_Inr]) (simp add: None)
  next
    case (Some wp)
    obtain wi wpath where "wp = (wi, wpath)" by (cases wp)
    then show ?thesis
      by (intro planned_cong[OF _ planned_process_children'[of limit "instances gd" "children wi" wpath]])
         (simp add: Some)
  qed
  have "planned (\<lambda>fs. case ensure_dir fs src False of Inl e \<Rightarrow> Inl e
      | Inr fs1 \<Rightarrow> (case generate_project_json gd out fs1 of Inl e \<Rightarrow> Inl e
          | Inr fs2 \<Rightarrow> (case run_plan plan fs2 of Inl e \<Rightarrow> Inl e
              | Inr fs3 \<Rightarrow> (case w of None \<Rightarrow> Inr fs3
                 | Some (workspace_instance, workspace_path) \<Rightarrow>
                     process_children limit (instances gd) (children workspace_instance)
                        workspace_path fs3))))"
    by (intro planned_bind planned_ensure_dir planned_generate_project_json
          plannedI[of "run_plan plan" plan] refl last)
  then show ?thesis
    by (rule planned_cong[rotated])
       (auto simp add: generate_project_def Let_def src_def[symmetric] roots split: sum.splits)
qed


section \<open>Project emitter\<close>

lemma process_instance_fs_le:
  "process_instance d insts i p r fs = Inr fs' \<Longrightarrow> fs_le fs fs'"
  using planned_process_instance[of d insts i p r] run_plan_fs_le
  unfolding planned_def by metis

lemma script_children_existing_dir:
  "exists fs (path_div p nm) \<Longrightarrow>
     script_children d insts nm cs p fs = process_children d insts cs (path_div p nm) fs"
proof (induction cs arbitrary: fs)
  case Nil
  then show ?case by simp
next
  case (Cons c cs)
  show ?case
  proof (cases "map_of insts c")
    case None
    then show ?thesis using Cons by simp
  next
    case (Some child)
    show ?thesis
    proof (cases "process_instance d insts child (path_div p nm) False fs")
      case (Inl e)
      then show ?thesis using Some Cons.prems by (simp add: ensure_dir_settled)
    next
      case (Inr fs2)
      have "exists fs2 (path_div p nm)"
        using exists_mono[OF process_instance_fs_le[OF Inr] Cons.prems] .
      from Cons.IH[OF this] show ?thesis using Some Cons.prems Inr by (simp add: ensure_dir_settled)
    qed
  qed
qed

lemma script_children_directory:
  assumes "\<exists>c \<in> set cs. map_of insts c \<noteq> None"
  shows "script_children d insts nm cs p fs =
     (case ensure_dir fs (path_div p nm) True of
        Inl e \<Rightarrow> Inl e
      | Inr fs1 \<Rightarrow> process_children d insts cs (path_div p nm) fs1)"
  using assms
proof (induction cs)
  case Nil
  then show ?case by simp
next
  case (Cons c cs)
  show ?case
  proof (cases "map_of insts c")
    case None
    then show ?thesis using Cons by (simp cong: sum.case_cong)
  next
    case (Some child)
    show ?thesis
    proof (cases "ensure_dir fs (path_div p nm) True")
      case (Inl e)
      then show ?thesis using Some by simp
    next
      case (Inr fs1)
      have e1: "exists fs1 (path_div p nm)" using ensure_dir_result[OF Inr] by simp
      show ?thesis
      proof (cases "process_instance d insts child (path_div p nm) False fs1")
        case (Inl e)
        then show ?thesis using Some Inr by simp
      next
        case inner: (Inr fs2)
        have "exists fs2 (path_div p nm)"
          using exists_mono[OF process_instance_fs_le[OF inner] e1] .
        from script_children_existing_dir[OF this] show ?thesis using Some Inr inner by simp
      qed
    qed
  qed
qed

lemma process_children_fs_le:
  "process_children d insts cs p fs = Inr fs' \<Longrightarrow> fs_le fs fs'"
  using planned_process_children'[of d insts cs p] run_plan_fs_le
  unfolding planned_def by metis

lemma set_strip_where: "set (strip_where P s) \<subseteq> set s"
proof -
  have "set (rev (dropWhile P (rev (dropWhile P s)))) \<subseteq> set (dropWhile P s)"
    using set_dropWhileD[of _ P "rev (dropWhile P s)"] by auto
  also have "\<dots> \<subseteq> set s" using set_dropWhileD[of _ P s] by auto
  finally show ?thesis by (simp add: strip_where_def)
qed

lemma slash_not_valid: "CHR ''/'' \<notin> set valid_chars"
  by (simp add: valid_chars_def)

lemma normalize_name_no_slash: "CHR ''/'' \<notin> set (normalize_name s)"
proof -
  let ?m = "map (\<lambda>c. if c \<in> set valid_chars then c else CHR ''_'') s"
  have "CHR ''/'' \<notin> set ?m" using slash_not_valid by auto
  then have "CHR ''/'' \<notin> set (strip_where py_isspace (strip_where (\<lambda>c. c = CHR ''_'') ?m))"
    using set_strip_where[of py_isspace "strip_where (\<lambda>c. c = CHR ''_'') ?m"]
      set_strip_where[of "\<lambda>c. c = CHR ''_''" ?m] by blast
  then show ?thesis by (simp add: normalize_name_def Let_def)
qed

lemma py_in_subset: "py_in c s \<Longrightarrow> set c \<subseteq> set s"
proof (induction s)
  case Nil
  then show ?case by simp
next
  case (Cons x xs)
  from Cons.prems have "take (length c) (x # xs) = c \<or> py_in c xs" by simp
  then show ?case
  proof
    assume "take (length c) (x # xs) = c"
    then have "set c \<subseteq> set (x # xs)" by (metis set_take_subset)
    then show ?thesis .
  next
    assume "py_in c xs"
    then show ?thesis using Cons.IH by auto
  qed
qed

lemma normalize_keys_no_slash: "CHR ''/'' \<notin> set (normalize_keys ks)"
proof -
  let ?m = "concat (map (\<lambda>c. if py_in c valid_chars then c else ''_'') ks)"
  have "CHR ''/'' \<notin> set ?m" using slash_not_valid py_in_subset by (auto split: if_splits)
  then have "CHR ''/'' \<notin> set (strip_where py_isspace (strip_where (\<lambda>c. c = CHR ''_'') ?m))"
    using set_strip_where[of py_isspace "strip_where (\<lambda>c. c = CHR ''_'') ?m"]
      set_strip_where[of "\<lambda>c. c = CHR ''_''" ?m] by blast
  then show ?thesis by (simp add: normalize_keys_def Let_def)
qed

lemma normalize_value_no_slash: "normalize_value v = Inr nm \<Longrightarrow> CHR ''/'' \<notin> set nm"
  by (cases v) (auto simp add: normalize_value_def normalize_name_no_slash normalize_keys_no_slash)

lemma split_slash_no_slash: "CHR ''/'' \<notin> set s \<Longrightarrow> split_slash s cur = [rev cur @ s]"
  by (induction s arbitrary: cur) auto

lemma path_div_name:
  assumes "CHR ''/'' \<notin> set s" and "s \<noteq> []" and "s \<noteq> ''.''"
  shows "path_div p s = p\<lparr>segments := segments p @ [s]\<rparr>"
proof -
  have "take 1 s \<noteq> ''/''" using assms(1,2) by (cases s) auto
  then show ?thesis using assms by (simp add: path_div_def split_slash_no_slash)
qed

lemma script_extension_long: "length (script_extension c) \<ge> 4 \<and> CHR ''/'' \<notin> set (script_extension c)"
  by (simp add: script_extension_def)

lemma script_path_parent:
  assumes "normalize_value v = Inr nm"
  shows "path_parent (path_div p (nm @ script_extension c)) = p"
proof -
  have 1: "CHR ''/'' \<notin> set (nm @ script_extension c)"
    using normalize_value_no_slash[OF assms] script_extension_long[of c] by simp
  have 2: "nm @ script_extension c \<noteq> []" "nm @ script_extension c \<noteq> ''.''"
    using script_extension_long[of c] by (auto simp add: append_eq_Cons_conv)
  show ?thesis by (simp add: path_div_name[OF 1 2] path_parent_def)
qed

subsection \<open>Where the placement writes\<close>

lemma changes_below_refl: "changes_below dir S S"
  by (simp add: changes_below_def)

lemma changes_below_trans:
  "changes_below dir S T \<Longrightarrow> changes_below dir T U \<Longrightarrow> changes_below dir S U"
  unfolding changes_below_def by metis

lemma changes_below_sub: "changes_below (dir @ r) S T \<Longrightarrow> changes_below dir S T"
  unfolding changes_below_def by (metis append_assoc append_is_Nil_conv)

lemma changes_below_update:
  "s \<noteq> [] \<Longrightarrow> changes_below dir S (S\<lparr>nodes := (nodes S)(dir @ s \<mapsto> n)\<rparr>)"
  by (auto simp add: changes_below_def)

lemma walk_append:
  "walk fs cur (xs @ ys) = (case walk fs cur xs of Inl e \<Rightarrow> Inl e | Inr c \<Rightarrow> walk fs c ys)"
  by (induction xs arbitrary: cur) (auto split: option.splits node.splits)

lemma walk_snoc:
  "walk fs cur (xs @ [s]) =
     (case walk fs cur xs of
        Inl e \<Rightarrow> Inl e
      | Inr c \<Rightarrow>
          if s = ''..'' then Inr (butlast c)
          else (case nodes fs (c @ [s]) of
                  None \<Rightarrow> Inl FileNotFoundError
                | Some Dir \<Rightarrow> Inr (c @ [s])
                | Some (File x) \<Rightarrow> Inl NotADirectoryError))"
  by (simp add: walk_append split: sum.splits option.splits node.splits)

lemma normalize_value_nonempty: "normalize_value v = Inr nm \<Longrightarrow> nm \<noteq> []"
  by (cases v)
     (auto simp add: normalize_value_def normalize_name_def normalize_keys_def Let_def
           split: if_splits)

lemma path_div_dot: "path_div p ''.'' = p"
  by (simp add: path_div_def)

lemma exists_of_walk:
  assumes "walk fs (start fs p) (segments p) = Inr dir"
  shows "exists fs p"
proof (cases "segments p = []")
  case True
  then show ?thesis by (simp add: exists_def stat_def)
next
  case False
  then have "segments p = butlast (segments p) @ [last (segments p)]" by simp
  then have "walk fs (start fs p) (butlast (segments p) @ [last (segments p)]) = Inr dir"
    using assms by simp
  then show ?thesis using False unfolding walk_snoc
    by (auto simp add: exists_def stat_def split: sum.splits option.splits node.splits if_splits)
qed

lemma ensure_dir_child:
  assumes w: "walk fs (start fs p) (segments p) = Inr dir" and s: "s \<noteq> ''..''"
    and e: "ensure_dir fs (p\<lparr>segments := segments p @ [s]\<rparr>) ex = Inr fs1"
  shows "(fs1 = fs \<and> nodes fs (dir @ [s]) \<noteq> None) \<or>
         (fs1 = fs\<lparr>nodes := (nodes fs)(dir @ [s] \<mapsto> Dir)\<rparr> \<and> nodes fs (dir @ [s]) = None)"
proof (cases "nodes fs (dir @ [s])")
  case None
  let ?q = "p\<lparr>segments := segments p @ [s]\<rparr>"
  have ne: "\<not> exists fs ?q" using w s None by (simp add: exists_def stat_def start_def)
  have "os_mkdir fs ?q = Inr (fs\<lparr>nodes := (nodes fs)(dir @ [s] \<mapsto> Dir)\<rparr>)"
    using w s None by (simp add: os_mkdir_def start_def)
  then have "mkdir fs ?q True ex = Inr (fs\<lparr>nodes := (nodes fs)(dir @ [s] \<mapsto> Dir)\<rparr>)"
    by (simp add: mkdir.simps)
  then show ?thesis using e ne None by (simp add: ensure_dir_def)
next
  case (Some n)
  let ?q = "p\<lparr>segments := segments p @ [s]\<rparr>"
  have "exists fs ?q" using w s Some by (simp add: exists_def stat_def start_def)
  then show ?thesis using e Some by (simp add: ensure_dir_def)
qed

lemma ensure_dir_notadir:
  assumes w: "walk fs (start fs q) (segments q) = Inl NotADirectoryError"
    and e: "ensure_dir fs q ex = Inr fs1"
  shows "fs1 = fs"
proof (cases "exists fs q")
  case True
  then show ?thesis using e by (simp add: ensure_dir_def)
next
  case False
  have ne: "segments q \<noteq> []" using w by auto
  then have sq: "segments q = butlast (segments q) @ [last (segments q)]" by simp
  have w': "walk fs (start fs q) (butlast (segments q) @ [last (segments q)]) = Inl NotADirectoryError"
    using w sq by simp
  have st: "stat fs q = Inl NotADirectoryError"
    using w' False ne unfolding walk_snoc
    by (auto simp add: exists_def stat_def split: sum.splits option.splits node.splits if_splits)
  then have "walk fs (start fs q) (butlast (segments q)) = Inl NotADirectoryError"
    using w' ne unfolding walk_snoc
    by (auto simp add: stat_def split: sum.splits option.splits node.splits if_splits)
  then have "os_mkdir fs q = Inl NotADirectoryError" using ne by (simp add: os_mkdir_def)
  moreover have "\<not> is_dir fs q" using st by (simp add: is_dir_def)
  ultimately have "mkdir fs q True ex = Inl NotADirectoryError" by (simp add: mkdir.simps)
  then show ?thesis using e False by (simp add: ensure_dir_def)
qed

lemma write_file_child:
  assumes "walk fs (start fs p) (segments p) = Inr dir" and "s \<noteq> ''..''"
    and "write_file fs (p\<lparr>segments := segments p @ [s]\<rparr>) c = Inr fs1"
  shows "fs1 = fs\<lparr>nodes := (nodes fs)(dir @ [s] \<mapsto> File c)\<rparr> \<and> nodes fs (dir @ [s]) \<noteq> Some Dir"
  using assms
  by (auto simp add: write_file_def start_def split: option.splits node.splits)

lemma write_file_unresolved:
  assumes "walk fs (start fs p) (segments p) = Inl e"
  shows "write_file fs (p\<lparr>segments := segments p @ [s]\<rparr>) c = Inl e"
  using assms by (simp add: write_file_def start_def)

lemma walk_child_unresolved:
  assumes "walk fs (start fs p) (segments p) = Inl e" and "CHR ''/'' \<notin> set s" and "s \<noteq> []"
  shows "walk fs (start fs (path_div p s)) (segments (path_div p s)) = Inl e"
proof (cases "s = ''.''")
  case True
  then show ?thesis using assms by (simp add: path_div_dot)
next
  case False
  show ?thesis using assms by (simp add: path_div_name[OF assms(2,3) False] start_def walk_append)
qed

lemma sidecar_name:
  assumes "normalize_value v = Inr nm"
  shows "path_div p (nm @ ''.meta.json'') = p\<lparr>segments := segments p @ [nm @ ''.meta.json'']\<rparr>"
    and "nm @ ''.meta.json'' \<noteq> ''..''"
proof -
  have 1: "CHR ''/'' \<notin> set (nm @ ''.meta.json'')"
    using normalize_value_no_slash[OF assms] by simp
  have 2: "nm @ ''.meta.json'' \<noteq> []" "nm @ ''.meta.json'' \<noteq> ''.''"
    by (auto simp add: append_eq_Cons_conv)
  show "path_div p (nm @ ''.meta.json'') = p\<lparr>segments := segments p @ [nm @ ''.meta.json'']\<rparr>"
    by (rule path_div_name[OF 1 2])
  show "nm @ ''.meta.json'' \<noteq> ''..''" by (auto simp add: append_eq_Cons_conv)
qed

lemma script_name:
  assumes "normalize_value v = Inr nm"
  shows "path_div p (nm @ script_extension c) = p\<lparr>segments := segments p @ [nm @ script_extension c]\<rparr>"
    and "nm @ script_extension c \<noteq> ''..''"
proof -
  have 1: "CHR ''/'' \<notin> set (nm @ script_extension c)"
    using normalize_value_no_slash[OF assms] script_extension_long[of c] by simp
  have 2: "nm @ script_extension c \<noteq> []" "nm @ script_extension c \<noteq> ''.''"
    using script_extension_long[of c] by (auto simp add: append_eq_Cons_conv)
  show "path_div p (nm @ script_extension c) = p\<lparr>segments := segments p @ [nm @ script_extension c]\<rparr>"
    by (rule path_div_name[OF 1 2])
  show "nm @ script_extension c \<noteq> ''..''"
    using script_extension_long[of c] by (auto simp add: append_eq_Cons_conv)
qed

lemma create_meta_file_at:
  assumes w: "walk fs (start fs p) (segments p) = Inr dir"
    and c: "create_meta_file i p fs = Inr fs1"
  shows "\<exists>meta. meta_properties (properties i) [] = Inr meta \<and>
     (if inst_class i \<notin> set [''Folder''] \<or> length meta > 0
      then (\<exists>nm. normalize_value (instance_name i) = Inr nm \<and>
              fs1 = fs\<lparr>nodes := (nodes fs)(dir @ [nm @ ''.meta.json''] \<mapsto>
                 File (Json (JObj [(''className'', JVal (VStr (inst_class i))),
                                   (''properties'', JObj meta)])))\<rparr>)
      else fs1 = fs)"
proof -
  from c obtain meta where m: "meta_properties (properties i) [] = Inr meta"
    by (cases "meta_properties (properties i) []") (auto simp add: create_meta_file_def)
  show ?thesis
  proof (cases "inst_class i \<notin> set [''Folder''] \<or> length meta > 0")
    case False
    then show ?thesis using c m by (auto simp add: create_meta_file_def)
  next
    case True
    with c m obtain nm where nm: "normalize_value (instance_name i) = Inr nm"
      by (cases "normalize_value (instance_name i)") (auto simp add: create_meta_file_def)
    from c m True nm have "write_file fs (p\<lparr>segments := segments p @ [nm @ ''.meta.json'']\<rparr>)
        (Json (JObj [(''className'', JVal (VStr (inst_class i))), (''properties'', JObj meta)]))
        = Inr fs1"
      by (auto simp add: create_meta_file_def sidecar_name(1)[OF nm])
    from write_file_child[OF w sidecar_name(2)[OF nm] this] show ?thesis using nm m True by auto
  qed
qed

lemma create_meta_file_unresolved:
  assumes w: "walk fs (start fs p) (segments p) = Inl e"
    and c: "create_meta_file i p fs = Inr fs1"
  shows "fs1 = fs"
proof -
  from c obtain meta where m: "meta_properties (properties i) [] = Inr meta"
    by (cases "meta_properties (properties i) []") (auto simp add: create_meta_file_def)
  show ?thesis
  proof (cases "inst_class i \<notin> set [''Folder''] \<or> length meta > 0")
    case False
    then show ?thesis using c m by (auto simp add: create_meta_file_def)
  next
    case True
    with c m obtain nm where nm: "normalize_value (instance_name i) = Inr nm"
      by (cases "normalize_value (instance_name i)") (auto simp add: create_meta_file_def)
    from c m True nm show ?thesis
      by (auto simp add: create_meta_file_def sidecar_name(1)[OF nm] write_file_unresolved[OF w])
  qed
qed

lemma create_meta_file_fs_le: "create_meta_file i p fs = Inr fs1 \<Longrightarrow> fs_le fs fs1"
  by (auto simp add: create_meta_file_def fs_le_refl write_file_fs_le split: sum.splits if_splits)

lemma create_meta_file_below:
  assumes "walk fs (start fs p) (segments p) = Inr dir" and "create_meta_file i p fs = Inr fs1"
  shows "changes_below dir fs fs1"
  using create_meta_file_at[OF assms] changes_below_update[of "[_]" dir fs]
  by (auto simp add: changes_below_refl split: if_splits)


text \<open>Below a path with a file on it, a placement that completes writes nothing.\<close>

lemma unresolved_process_children:
  assumes pi0: "\<forall>i p r fs fs'. walk fs (start fs p) (segments p) = Inl NotADirectoryError \<longrightarrow>
      process_instance d insts i p r fs = Inr fs' \<longrightarrow> fs' = fs"
    and w: "walk fs (start fs p) (segments p) = Inl NotADirectoryError"
  shows "process_children d insts cs p fs = Inr fs' \<Longrightarrow> fs' = fs"
proof (induction cs)
  case Nil
  then show ?case by simp
next
  case (Cons c cs)
  show ?case
  proof (cases "map_of insts c")
    case None
    then show ?thesis using Cons by simp
  next
    case (Some child)
    with Cons.prems obtain fs1 where 1: "process_instance d insts child p False fs = Inr fs1"
      and 2: "process_children d insts cs p fs1 = Inr fs'"
      by (auto split: sum.splits)
    from pi0 w 1 have "fs1 = fs" by blast
    with 2 Cons.IH show ?thesis by simp
  qed
qed

lemma unresolved_script_children:
  assumes pi0: "\<forall>i p r fs fs'. walk fs (start fs p) (segments p) = Inl NotADirectoryError \<longrightarrow>
      process_instance d insts i p r fs = Inr fs' \<longrightarrow> fs' = fs"
    and w: "walk fs (start fs p) (segments p) = Inl NotADirectoryError"
    and nm: "CHR ''/'' \<notin> set nm" "nm \<noteq> []"
  shows "script_children d insts nm cs p fs = Inr fs' \<Longrightarrow> fs' = fs"
proof (induction cs)
  case Nil
  then show ?case by simp
next
  case (Cons c cs)
  show ?case
  proof (cases "map_of insts c")
    case None
    then show ?thesis using Cons by simp
  next
    case (Some child)
    with Cons.prems obtain fs1 fs2 where 0: "ensure_dir fs (path_div p nm) True = Inr fs1"
      and 1: "process_instance d insts child (path_div p nm) False fs1 = Inr fs2"
      and 2: "script_children d insts nm cs p fs2 = Inr fs'"
      by (auto simp add: Let_def split: sum.splits)
    have w': "walk fs (start fs (path_div p nm)) (segments (path_div p nm)) = Inl NotADirectoryError"
      by (rule walk_child_unresolved[OF w nm])
    from ensure_dir_notadir[OF w' 0] have a: "fs1 = fs" .
    from pi0 w' a 1 have "fs2 = fs1" by blast
    with a 2 Cons.IH show ?thesis by simp
  qed
qed

lemma unresolved_process_instance_Suc:
  assumes cs: "\<forall>i p fs fs'. walk fs (start fs p) (segments p) = Inl NotADirectoryError \<longrightarrow>
      create_script_file d insts i p fs = Inr fs' \<longrightarrow> fs' = fs"
    and pc: "\<forall>cs p fs fs'. walk fs (start fs p) (segments p) = Inl NotADirectoryError \<longrightarrow>
      process_children d insts cs p fs = Inr fs' \<longrightarrow> fs' = fs"
    and w: "walk fs (start fs p) (segments p) = Inl NotADirectoryError"
    and r: "process_instance (Suc d) insts i p r fs = Inr fs'"
  shows "fs' = fs"
proof (cases "inst_class i \<in> set script_classes")
  case True
  then show ?thesis using r cs w by simp
next
  case False
  from r False obtain dir_name where dn: "normalize_value (instance_name i) = Inr dir_name"
    by (cases "normalize_value (instance_name i)") auto
  show ?thesis
  proof (cases "children i \<noteq> [] \<or> r \<or> properties i \<noteq> []")
    case no: False
    then show ?thesis using r False dn by simp
  next
    case yes: True
    define reuse where "reuse = (r \<and> inst_class i \<in> set (parts p))"
    define instance_path where "instance_path = (if reuse then p else path_div p dir_name)"
    from r False dn yes obtain fs1 fs2 where
      0: "(if reuse then Inr fs else ensure_dir fs instance_path True) = Inr fs1"
      and 1: "create_meta_file i instance_path fs1 = Inr fs2"
      and 2: "process_children d insts (children i) instance_path fs2 = Inr fs'"
      by (auto simp add: Let_def reuse_def instance_path_def split: sum.splits if_splits)
    have w': "walk fs (start fs instance_path) (segments instance_path) = Inl NotADirectoryError"
      unfolding instance_path_def
      using w walk_child_unresolved[OF w normalize_value_no_slash[OF dn]
          normalize_value_nonempty[OF dn]] by simp
    have a: "fs1 = fs" using 0 ensure_dir_notadir[OF w'] by (auto split: if_splits)
    have b: "fs2 = fs1" using create_meta_file_unresolved[OF w'[folded a] 1] .
    from pc w' 2 a b show ?thesis by blast
  qed
qed

lemma unresolved_create_script_file_Suc:
  assumes w: "walk fs (start fs p) (segments p) = Inl NotADirectoryError"
  shows "create_script_file (Suc d) insts i p fs \<noteq> Inr fs'"
proof (cases "normalize_value (instance_name i)")
  case (Inl e)
  then show ?thesis by simp
next
  case (Inr nm)
  have "write_source fs (path_div p (nm @ script_extension (inst_class i))) v
      = Inl NotADirectoryError" for v
    by (cases v) (simp_all add: write_source_def script_name(1)[OF Inr] write_file_unresolved[OF w])
  then show ?thesis using Inr by (simp add: Let_def)
qed

lemma unresolved_placement:
  "(\<forall>i p r fs fs'. walk fs (start fs p) (segments p) = Inl NotADirectoryError \<longrightarrow>
       process_instance d insts i p r fs = Inr fs' \<longrightarrow> fs' = fs) \<and>
   (\<forall>i p fs fs'. walk fs (start fs p) (segments p) = Inl NotADirectoryError \<longrightarrow>
       create_script_file d insts i p fs = Inr fs' \<longrightarrow> fs' = fs)"
proof (induction d)
  case 0
  show ?case by simp
next
  case (Suc d)
  have pi: "\<forall>i p r fs fs'. walk fs (start fs p) (segments p) = Inl NotADirectoryError \<longrightarrow>
      process_instance d insts i p r fs = Inr fs' \<longrightarrow> fs' = fs" using Suc by blast
  have cs: "\<forall>i p fs fs'. walk fs (start fs p) (segments p) = Inl NotADirectoryError \<longrightarrow>
      create_script_file d insts i p fs = Inr fs' \<longrightarrow> fs' = fs" using Suc by blast
  have pc: "\<forall>cs p fs fs'. walk fs (start fs p) (segments p) = Inl NotADirectoryError \<longrightarrow>
      process_children d insts cs p fs = Inr fs' \<longrightarrow> fs' = fs"
    using unresolved_process_children[OF pi] by blast
  show ?case
    using unresolved_process_instance_Suc[OF cs pc] unresolved_create_script_file_Suc
    by blast
qed

lemma unresolved_process_instance:
  "walk fs (start fs p) (segments p) = Inl NotADirectoryError \<Longrightarrow>
     process_instance d insts i p r fs = Inr fs' \<Longrightarrow> fs' = fs"
  using unresolved_placement by blast

lemma unresolved_process_children':
  "walk fs (start fs p) (segments p) = Inl NotADirectoryError \<Longrightarrow>
     process_children d insts cs p fs = Inr fs' \<Longrightarrow> fs' = fs"
  using unresolved_process_children[of d insts] unresolved_placement[of d insts] by blast


text \<open>
  Below a directory, when no node is named \<open>..\<close>, a placement changes the file system
  strictly below that directory only.
\<close>

lemma walk_later:
  "fs_le S T \<Longrightarrow> walk S (start S p) (segments p) = Inr dir \<Longrightarrow>
     walk T (start T p) (segments p) = Inr dir"
  using walk_mono[of S T "start S p" "segments p" dir] by (simp add: fs_le_start)

lemma ensure_dir_below:
  assumes w: "walk fs (start fs p) (segments p) = Inr dir"
    and s: "CHR ''/'' \<notin> set s" "s \<noteq> []" "s \<noteq> ''..''"
    and e: "ensure_dir fs (path_div p s) ex = Inr fs1"
  shows "changes_below dir fs fs1 \<and> fs_le fs fs1 \<and>
     (walk fs1 (start fs1 (path_div p s)) (segments (path_div p s)) = Inl NotADirectoryError \<or>
      (\<exists>r. walk fs1 (start fs1 (path_div p s)) (segments (path_div p s)) = Inr (dir @ r)))"
proof (cases "s = ''.''")
  case True
  have "fs1 = fs" using e exists_of_walk[OF w] by (simp add: True path_div_dot ensure_dir_def)
  then show ?thesis using w by (simp add: True path_div_dot changes_below_refl fs_le_refl)
next
  case False
  have q: "path_div p s = p\<lparr>segments := segments p @ [s]\<rparr>"
    by (rule path_div_name[OF s(1,2) False])
  have le: "fs_le fs fs1" using ensure_dir_result[OF e] keeps_fs_le by blast
  have w1: "walk fs1 (start fs1 p) (segments p) = Inr dir" by (rule walk_later[OF le w])
  have st: "start fs1 (p\<lparr>segments := segments p @ [s]\<rparr>) = start fs1 p" by (simp add: start_def)
  from ensure_dir_child[OF w s(3) e[unfolded q]]
  show ?thesis
  proof
    assume a: "fs1 = fs \<and> nodes fs (dir @ [s]) \<noteq> None"
    then obtain n where n: "nodes fs1 (dir @ [s]) = Some n" by auto
    have "changes_below dir fs fs1" using a by (simp add: changes_below_refl)
    moreover have "walk fs1 (start fs1 p) (segments p @ [s]) = Inl NotADirectoryError \<or>
        walk fs1 (start fs1 p) (segments p @ [s]) = Inr (dir @ [s])"
      unfolding walk_snoc using w1 n s(3) by (cases n) auto
    ultimately show ?thesis using le unfolding q st by auto
  next
    assume a: "fs1 = fs\<lparr>nodes := (nodes fs)(dir @ [s] \<mapsto> Dir)\<rparr> \<and> nodes fs (dir @ [s]) = None"
    then have n: "nodes fs1 (dir @ [s]) = Some Dir" by simp
    have "changes_below dir fs fs1" using a changes_below_update[of "[s]" dir fs Dir] by simp
    moreover have "walk fs1 (start fs1 p) (segments p @ [s]) = Inr (dir @ [s])"
      unfolding walk_snoc using w1 n s(3) by auto
    ultimately show ?thesis using le unfolding q st by auto
  qed
qed

lemma below_process_children:
  assumes names: "\<forall>c i'. map_of insts c = Some i' \<longrightarrow> normalize_value (instance_name i') \<noteq> Inr ''..''"
    and pi: "\<forall>i p r fs fs' dir. normalize_value (instance_name i) \<noteq> Inr ''..'' \<longrightarrow>
      walk fs (start fs p) (segments p) = Inr dir \<longrightarrow>
      process_instance d insts i p r fs = Inr fs' \<longrightarrow> changes_below dir fs fs'"
  shows "walk fs (start fs p) (segments p) = Inr dir \<Longrightarrow>
     process_children d insts cs p fs = Inr fs' \<Longrightarrow> changes_below dir fs fs'"
proof (induction cs arbitrary: fs)
  case Nil
  then show ?case by (simp add: changes_below_refl)
next
  case (Cons c cs)
  show ?case
  proof (cases "map_of insts c")
    case None
    then show ?thesis using Cons by simp
  next
    case (Some child)
    with Cons.prems obtain fs1 where 1: "process_instance d insts child p False fs = Inr fs1"
      and 2: "process_children d insts cs p fs1 = Inr fs'"
      by (auto split: sum.splits)
    have nm: "normalize_value (instance_name child) \<noteq> Inr ''..''" using names Some by blast
    have a: "changes_below dir fs fs1" using pi nm Cons.prems(1) 1 by blast
    have w1: "walk fs1 (start fs1 p) (segments p) = Inr dir"
      by (rule walk_later[OF process_instance_fs_le[OF 1] Cons.prems(1)])
    from changes_below_trans[OF a Cons.IH[OF w1 2]] show ?thesis .
  qed
qed

lemma below_script_children:
  assumes names: "\<forall>c i'. map_of insts c = Some i' \<longrightarrow> normalize_value (instance_name i') \<noteq> Inr ''..''"
    and pi: "\<forall>i p r fs fs' dir. normalize_value (instance_name i) \<noteq> Inr ''..'' \<longrightarrow>
      walk fs (start fs p) (segments p) = Inr dir \<longrightarrow>
      process_instance d insts i p r fs = Inr fs' \<longrightarrow> changes_below dir fs fs'"
    and nm: "CHR ''/'' \<notin> set nm" "nm \<noteq> []" "nm \<noteq> ''..''"
  shows "walk fs (start fs p) (segments p) = Inr dir \<Longrightarrow>
     script_children d insts nm cs p fs = Inr fs' \<Longrightarrow> changes_below dir fs fs'"
proof (induction cs arbitrary: fs)
  case Nil
  then show ?case by (simp add: changes_below_refl)
next
  case (Cons c cs)
  show ?case
  proof (cases "map_of insts c")
    case None
    then show ?thesis using Cons by simp
  next
    case (Some child)
    let ?q = "path_div p nm"
    from Some Cons.prems obtain fs1 fs2 where 0: "ensure_dir fs ?q True = Inr fs1"
      and 1: "process_instance d insts child ?q False fs1 = Inr fs2"
      and 2: "script_children d insts nm cs p fs2 = Inr fs'"
      by (auto simp add: Let_def split: sum.splits)
    have cn: "normalize_value (instance_name child) \<noteq> Inr ''..''" using names Some by blast
    from ensure_dir_below[OF Cons.prems(1) nm 0]
    have a: "changes_below dir fs fs1" and le: "fs_le fs fs1"
      and q: "walk fs1 (start fs1 ?q) (segments ?q) = Inl NotADirectoryError \<or>
        (\<exists>r. walk fs1 (start fs1 ?q) (segments ?q) = Inr (dir @ r))" by blast+
    have b: "changes_below dir fs1 fs2"
      using q
    proof
      assume "walk fs1 (start fs1 ?q) (segments ?q) = Inl NotADirectoryError"
      from unresolved_process_instance[OF this 1] show ?thesis by (simp add: changes_below_refl)
    next
      assume "\<exists>r. walk fs1 (start fs1 ?q) (segments ?q) = Inr (dir @ r)"
      then obtain r where "walk fs1 (start fs1 ?q) (segments ?q) = Inr (dir @ r)" by blast
      with pi cn 1 have "changes_below (dir @ r) fs1 fs2" by blast
      then show ?thesis by (rule changes_below_sub)
    qed
    have w2: "walk fs2 (start fs2 p) (segments p) = Inr dir"
      by (rule walk_later[OF fs_le_trans[OF le process_instance_fs_le[OF 1]] Cons.prems(1)])
    from changes_below_trans[OF changes_below_trans[OF a b] Cons.IH[OF w2 2]] show ?thesis .
  qed
qed

lemma below_process_instance_Suc:
  assumes cs: "\<forall>i p fs fs' dir. normalize_value (instance_name i) \<noteq> Inr ''..'' \<longrightarrow>
      walk fs (start fs p) (segments p) = Inr dir \<longrightarrow>
      create_script_file d insts i p fs = Inr fs' \<longrightarrow> changes_below dir fs fs'"
    and pc: "\<forall>cs p fs fs' dir. walk fs (start fs p) (segments p) = Inr dir \<longrightarrow>
      process_children d insts cs p fs = Inr fs' \<longrightarrow> changes_below dir fs fs'"
    and nm: "normalize_value (instance_name i) \<noteq> Inr ''..''"
    and w: "walk fs (start fs p) (segments p) = Inr dir"
    and r: "process_instance (Suc d) insts i p r fs = Inr fs'"
  shows "changes_below dir fs fs'"
proof (cases "inst_class i \<in> set script_classes")
  case True
  then show ?thesis using r cs nm w by simp
next
  case False
  from r False obtain dir_name where dn: "normalize_value (instance_name i) = Inr dir_name"
    by (cases "normalize_value (instance_name i)") auto
  show ?thesis
  proof (cases "children i \<noteq> [] \<or> r \<or> properties i \<noteq> []")
    case no: False
    then show ?thesis using r False dn by (simp add: changes_below_refl)
  next
    case yes: True
    define reuse where "reuse = (r \<and> inst_class i \<in> set (parts p))"
    define q where "q = (if reuse then p else path_div p dir_name)"
    from r False dn yes obtain fs1 fs2 where
      0: "(if reuse then Inr fs else ensure_dir fs q True) = Inr fs1"
      and 1: "create_meta_file i q fs1 = Inr fs2"
      and 2: "process_children d insts (children i) q fs2 = Inr fs'"
      by (auto simp add: Let_def reuse_def q_def split: sum.splits if_splits)
    have first: "changes_below dir fs fs1 \<and> fs_le fs fs1 \<and>
       (walk fs1 (start fs1 q) (segments q) = Inl NotADirectoryError \<or>
        (\<exists>r. walk fs1 (start fs1 q) (segments q) = Inr (dir @ r)))"
    proof (cases reuse)
      case True
      then have "fs1 = fs" "q = p" using 0 by (simp_all add: q_def)
      then show ?thesis using w by (simp add: changes_below_refl fs_le_refl)
    next
      case False
      then have e: "ensure_dir fs (path_div p dir_name) True = Inr fs1" using 0 by (simp add: q_def)
      have "dir_name \<noteq> ''..''" using nm dn by simp
      from ensure_dir_below[OF w normalize_value_no_slash[OF dn] normalize_value_nonempty[OF dn]
          this e]
      show ?thesis using False by (simp add: q_def)
    qed
    then have a: "changes_below dir fs fs1" and le: "fs_le fs fs1"
      and qq: "walk fs1 (start fs1 q) (segments q) = Inl NotADirectoryError \<or>
        (\<exists>r. walk fs1 (start fs1 q) (segments q) = Inr (dir @ r))" by blast+
    have b: "changes_below dir fs1 fs'"
      using qq
    proof
      assume u: "walk fs1 (start fs1 q) (segments q) = Inl NotADirectoryError"
      have x: "fs2 = fs1" by (rule create_meta_file_unresolved[OF u 1])
      from unresolved_process_children'[OF u[folded x] 2] x show ?thesis
        by (simp add: changes_below_refl)
    next
      assume "\<exists>r. walk fs1 (start fs1 q) (segments q) = Inr (dir @ r)"
      then obtain r where u: "walk fs1 (start fs1 q) (segments q) = Inr (dir @ r)" by blast
      have x: "changes_below (dir @ r) fs1 fs2" by (rule create_meta_file_below[OF u 1])
      have "walk fs2 (start fs2 q) (segments q) = Inr (dir @ r)"
        by (rule walk_later[OF create_meta_file_fs_le[OF 1] u])
      with pc 2 have "changes_below (dir @ r) fs2 fs'" by blast
      from changes_below_sub[OF changes_below_trans[OF x this]] show ?thesis .
    qed
    from changes_below_trans[OF a b] show ?thesis .
  qed
qed

lemma write_source_at:
  assumes w: "walk fs (start fs p) (segments p) = Inr dir" and s: "s \<noteq> ''..''"
    and c: "write_source fs (p\<lparr>segments := segments p @ [s]\<rparr>) v = Inr fs1"
  shows "\<exists>src. v = VStr src \<and> fs1 = fs\<lparr>nodes := (nodes fs)(dir @ [s] \<mapsto> File (Text src))\<rparr>"
proof (cases v)
  case (VStr src)
  then have "write_file fs (p\<lparr>segments := segments p @ [s]\<rparr>) (Text src) = Inr fs1"
    using c by (simp add: write_source_def)
  from write_file_child[OF w s this] show ?thesis using VStr by simp
qed (use c in \<open>auto simp add: write_source_def split: sum.splits\<close>)

lemma write_source_fs_le: "write_source fs p v = Inr fs1 \<Longrightarrow> fs_le fs fs1"
  by (cases v) (auto simp add: write_source_def write_file_fs_le split: sum.splits)

lemma below_create_script_file_Suc:
  assumes sc: "\<forall>nm cs p fs fs' dir. CHR ''/'' \<notin> set nm \<longrightarrow> nm \<noteq> [] \<longrightarrow> nm \<noteq> ''..'' \<longrightarrow>
      walk fs (start fs p) (segments p) = Inr dir \<longrightarrow>
      script_children d insts nm cs p fs = Inr fs' \<longrightarrow> changes_below dir fs fs'"
    and nm: "normalize_value (instance_name i) \<noteq> Inr ''..''"
    and w: "walk fs (start fs p) (segments p) = Inr dir"
    and r: "create_script_file (Suc d) insts i p fs = Inr fs'"
  shows "changes_below dir fs fs'"
proof -
  from r obtain n where n: "normalize_value (instance_name i) = Inr n"
    by (cases "normalize_value (instance_name i)") auto
  let ?s = "n @ script_extension (inst_class i)"
  let ?sp = "path_div p ?s"
  let ?src = "case map_of (properties i) (Some ''Source'') of Some v \<Rightarrow> v | None \<Rightarrow> VStr []"
  from r n obtain fs1 where 0: "write_source fs ?sp ?src = Inr fs1"
    by (cases "write_source fs ?sp ?src") (auto simp add: Let_def)
  from write_source_at[OF w script_name(2)[OF n] 0[unfolded script_name(1)[OF n]]]
  have a: "changes_below dir fs fs1" using changes_below_update[of "[?s]" dir fs] by auto
  have le: "fs_le fs fs1" by (rule write_source_fs_le[OF 0])
  have w1: "walk fs1 (start fs1 p) (segments p) = Inr dir" by (rule walk_later[OF le w])
  show ?thesis
  proof (cases "children i \<noteq> []")
    case False
    then have "fs' = fs1" using r n 0 by (simp add: Let_def)
    then show ?thesis using a by simp
  next
    case True
    have pp: "path_parent ?sp = p" by (rule script_path_parent[OF n])
    from r n 0 True obtain fs2 where 1: "create_meta_file i p fs1 = Inr fs2"
      and 2: "script_children d insts n (children i) p fs2 = Inr fs'"
      by (cases "create_meta_file i p fs1") (auto simp add: Let_def pp)
    have b: "changes_below dir fs1 fs2" by (rule create_meta_file_below[OF w1 1])
    have w2: "walk fs2 (start fs2 p) (segments p) = Inr dir"
      by (rule walk_later[OF create_meta_file_fs_le[OF 1] w1])
    have "n \<noteq> ''..''" using nm n by simp
    with sc normalize_value_no_slash[OF n] normalize_value_nonempty[OF n] w2 2
    have "changes_below dir fs2 fs'" by blast
    from changes_below_trans[OF a changes_below_trans[OF b this]] show ?thesis .
  qed
qed

lemma below_placement:
  assumes names: "\<forall>c i'. map_of insts c = Some i' \<longrightarrow> normalize_value (instance_name i') \<noteq> Inr ''..''"
  shows "(\<forall>i p r fs fs' dir. normalize_value (instance_name i) \<noteq> Inr ''..'' \<longrightarrow>
      walk fs (start fs p) (segments p) = Inr dir \<longrightarrow>
      process_instance d insts i p r fs = Inr fs' \<longrightarrow> changes_below dir fs fs') \<and>
   (\<forall>i p fs fs' dir. normalize_value (instance_name i) \<noteq> Inr ''..'' \<longrightarrow>
      walk fs (start fs p) (segments p) = Inr dir \<longrightarrow>
      create_script_file d insts i p fs = Inr fs' \<longrightarrow> changes_below dir fs fs')"
proof (induction d)
  case 0
  show ?case by simp
next
  case (Suc d)
  have pi: "\<forall>i p r fs fs' dir. normalize_value (instance_name i) \<noteq> Inr ''..'' \<longrightarrow>
      walk fs (start fs p) (segments p) = Inr dir \<longrightarrow>
      process_instance d insts i p r fs = Inr fs' \<longrightarrow> changes_below dir fs fs'" using Suc by blast
  have cs: "\<forall>i p fs fs' dir. normalize_value (instance_name i) \<noteq> Inr ''..'' \<longrightarrow>
      walk fs (start fs p) (segments p) = Inr dir \<longrightarrow>
      create_script_file d insts i p fs = Inr fs' \<longrightarrow> changes_below dir fs fs'" using Suc by blast
  have pc: "\<forall>cs p fs fs' dir. walk fs (start fs p) (segments p) = Inr dir \<longrightarrow>
      process_children d insts cs p fs = Inr fs' \<longrightarrow> changes_below dir fs fs'"
    using below_process_children[OF names pi] by blast
  have sc: "\<forall>nm cs p fs fs' dir. CHR ''/'' \<notin> set nm \<longrightarrow> nm \<noteq> [] \<longrightarrow> nm \<noteq> ''..'' \<longrightarrow>
      walk fs (start fs p) (segments p) = Inr dir \<longrightarrow>
      script_children d insts nm cs p fs = Inr fs' \<longrightarrow> changes_below dir fs fs'"
    using below_script_children[OF names pi] by blast
  show ?case
    using below_process_instance_Suc[OF cs pc] below_create_script_file_Suc[OF sc]
    by blast
qed

lemma below_process_children':
  assumes "\<forall>c i'. map_of insts c = Some i' \<longrightarrow> normalize_value (instance_name i') \<noteq> Inr ''..''"
    and "walk fs (start fs p) (segments p) = Inr dir"
    and "process_children d insts cs p fs = Inr fs'"
  shows "changes_below dir fs fs'"
  using below_process_children[OF assms(1), of d] below_placement[OF assms(1), of d] assms(2,3)
  by blast


lemma write_source_resolves:
  assumes "write_source fs (p\<lparr>segments := segments p @ [s]\<rparr>) v = Inr fs1"
  shows "\<exists>dir. walk fs (start fs p) (segments p) = Inr dir"
proof (cases "walk fs (start fs p) (segments p)")
  case (Inl e)
  have "write_source fs (p\<lparr>segments := segments p @ [s]\<rparr>) v = Inl e"
    by (cases v) (simp_all add: write_source_def write_file_unresolved[OF Inl])
  then show ?thesis using assms by simp
next
  case (Inr dir)
  then show ?thesis by blast
qed

lemma script_extension_not_sidecar: "script_extension c \<noteq> ''.meta.json''"
  by (simp add: script_extension_def)

lemmas fs_eval = ensure_dir_def exists_def stat_def
  start_def path_div_def os_mkdir_def mkdir.simps is_dir_def write_file_def path_parent_def
  standard_directory_def project_tree_def service_entry_def py_startswith_def
  create_meta_file_def normalize_value_def instance_name_def normalize_name_def strip_where_def
  valid_chars_def py_isspace_def script_classes_def script_extension_def write_source_def parts_def
  included_property_def important_properties_def py_endswith_def meta_value_def dict_get_def
  eval_nat_numeral Let_def

text \<open>
  C1. A coordinate-frame property with the keys \<open>X\<close>, \<open>Y\<close>, \<open>Z\<close> and \<open>R00\<close> to \<open>R22\<close> is
  written to the sidecar as the 3-element list \<open>[X, Y, Z]\<close>: the test for a 3-component
  vector comes first and holds for every record with these three keys, so the branch that
  builds the 12-element list is never taken.
\<close>

theorem cframe_sidecar_value_has_three_elements:
  "bind_err
     (extract_property_value digits_lib
        (Elem ''CoordinateFrame'' [(''name'', ''CFrame'')] None
           [Elem ''X'' [] (Some ''1'') [], Elem ''Y'' [] (Some ''2'') [],
            Elem ''Z'' [] (Some ''3'') [],
            Elem ''R00'' [] (Some ''1'') [], Elem ''R01'' [] (Some ''0'') [],
            Elem ''R02'' [] (Some ''0'') [],
            Elem ''R10'' [] (Some ''0'') [], Elem ''R11'' [] (Some ''1'') [],
            Elem ''R12'' [] (Some ''0'') [],
            Elem ''R20'' [] (Some ''0'') [], Elem ''R21'' [] (Some ''0'') [],
            Elem ''R22'' [] (Some ''1'') []]))
     (\<lambda>v. meta_properties [(Some ''CFrame'', v)] [])
   = Inr [(''CFrame'', JList [JVal (VFloat 1), JVal (VFloat 2), JVal (VFloat 3)])]"
  by (simp add: extract_property_value_def bind_err_def float_of_text_def digits_lib_def
        meta_value_def included_property_def important_properties_def py_startswith_def)

text \<open>
  C3 (counterexample). A module script \<open>Mod\<close> with one child is emitted into \<open>out\<close>: the
  script file is \<open>out/Mod.lua\<close>, the sibling directory \<open>out/Mod\<close> exists, and the sidecar
  of the script node is \<open>out/Mod.meta.json\<close>, beside the script file; there is no sidecar
  \<open>out/Mod/Mod.meta.json\<close> in the sibling directory.
\<close>

theorem script_sidecar_beside_script_file:
  "map_sum id (\<lambda>fs. (nodes fs [''out'', ''Mod.lua''], nodes fs [''out'', ''Mod.meta.json''],
                      nodes fs [''out'', ''Mod''], nodes fs [''out'', ''Mod'', ''Mod.meta.json'']))
     (process_instance 3
        [(''M'', \<lparr>inst_class = ''ModuleScript'', referent = ''M'',
                  properties = [(Some ''Name'', VStr ''Mod''), (Some ''Source'', VStr ''return 1'')],
                  children = [''F''], parent = None\<rparr>),
         (''F'', \<lparr>inst_class = ''Folder'', referent = ''F'',
                  properties = [(Some ''Name'', VStr ''Sub'')], children = [],
                  parent = Some ''M''\<rparr>)]
        \<lparr>inst_class = ''ModuleScript'', referent = ''M'',
          properties = [(Some ''Name'', VStr ''Mod''), (Some ''Source'', VStr ''return 1'')],
          children = [''F''], parent = None\<rparr>
        \<lparr>absolute = False, segments = [''out'']\<rparr> False
        (\<lparr>nodes = [[''out''] \<mapsto> Dir], cwd = []\<rparr> :: real content fs))
   = Inr (Some (File (Text ''return 1'')),
          Some (File (Json (JObj [(''className'', JVal (VStr ''ModuleScript'')),
                                  (''properties'', JObj [])]))),
          Some Dir, None)"
  by (simp add: fs_eval)

text \<open>
  C3 (amended). For every script-like node with at least one child that is a key of the
  node map, a successful emission has the following course. The parent path resolves to
  a directory \<open>dir\<close>. The script file \<open>normalize(name) + extension\<close> is written into
  \<open>dir\<close>. The sidecar of the script node is written to \<open>normalize(name) + ".meta.json"\<close>
  in \<open>dir\<close>, beside the script file; this step changes no other location, so it puts
  nothing into the sibling directory. Then the path \<open>normalize(name)\<close> under the parent
  path is created as a directory unless it exists, and the children are placed at that
  path, in order, each as a non-root call, exactly as the children of a directory node
  are placed. At the end the sibling path exists and both files are files. When moreover
  the normalized name of the script is neither \<open>.\<close> nor \<open>..\<close> and no node of the map has the
  normalized name \<open>..\<close>, then at the end the script file holds the source, the sidecar
  file holds the sidecar of the script node, the sibling location is a directory (or the
  file that was there before), and every other location that has changed lies below
  the sibling location.
\<close>

theorem script_with_children_emission:
  assumes "inst_class i \<in> set script_classes" and "children i \<noteq> []"
    and "\<exists>c \<in> set (children i). map_of insts c \<noteq> None"
    and "process_instance (Suc (Suc d)) insts i parent_path is_root fs = Inr fs'"
  shows "\<exists>nm src meta dir fs1 fs2 fs3.
      normalize_value (instance_name i) = Inr nm \<and>
      (case map_of (properties i) (Some ''Source'') of Some v \<Rightarrow> v | None \<Rightarrow> VStr []) = VStr src \<and>
      meta_properties (properties i) [] = Inr meta \<and>
      walk fs (start fs parent_path) (segments parent_path) = Inr dir \<and>
      write_source fs (path_div parent_path (nm @ script_extension (inst_class i))) (VStr src)
        = Inr fs1 \<and>
      fs1 = fs\<lparr>nodes := (nodes fs)(dir @ [nm @ script_extension (inst_class i)] \<mapsto>
                File (Text src))\<rparr> \<and>
      create_meta_file i parent_path fs1 = Inr fs2 \<and>
      fs2 = fs1\<lparr>nodes := (nodes fs1)(dir @ [nm @ ''.meta.json''] \<mapsto>
                File (Json (JObj [(''className'', JVal (VStr (inst_class i))),
                                  (''properties'', JObj meta)])))\<rparr> \<and>
      ensure_dir fs2 (path_div parent_path nm) True = Inr fs3 \<and>
      process_children d insts (children i) (path_div parent_path nm) fs3 = Inr fs' \<and>
      exists fs' (path_div parent_path nm) \<and>
      (\<exists>c. nodes fs' (dir @ [nm @ script_extension (inst_class i)]) = Some (File c)) \<and>
      (\<exists>c. nodes fs' (dir @ [nm @ ''.meta.json'']) = Some (File c)) \<and>
      (nm \<noteq> ''.'' \<and> nm \<noteq> ''..'' \<and>
       (\<forall>c i'. map_of insts c = Some i' \<longrightarrow> normalize_value (instance_name i') \<noteq> Inr ''..'') \<longrightarrow>
         nodes fs' (dir @ [nm @ script_extension (inst_class i)]) = Some (File (Text src)) \<and>
         nodes fs' (dir @ [nm @ ''.meta.json'']) =
           Some (File (Json (JObj [(''className'', JVal (VStr (inst_class i))),
                                   (''properties'', JObj meta)]))) \<and>
         nodes fs' (dir @ [nm]) =
           (case nodes fs (dir @ [nm]) of Some (File c) \<Rightarrow> Some (File c) | _ \<Rightarrow> Some Dir) \<and>
         (\<forall>l. nodes fs' l \<noteq> nodes fs l \<longrightarrow>
              l = dir @ [nm @ script_extension (inst_class i)] \<or>
              l = dir @ [nm @ ''.meta.json''] \<or> (\<exists>r. l = dir @ nm # r)))"
proof -
  let ?ext = "script_extension (inst_class i)"
  from assms(1,4) have cs: "create_script_file (Suc d) insts i parent_path fs = Inr fs'" by simp
  then obtain nm where nm: "normalize_value (instance_name i) = Inr nm"
    by (cases "normalize_value (instance_name i)") auto
  let ?sp = "path_div parent_path (nm @ ?ext)"
  let ?v = "case map_of (properties i) (Some ''Source'') of Some v \<Rightarrow> v | None \<Rightarrow> VStr []"
  let ?q = "path_div parent_path nm"
  from cs nm obtain fs1 where w: "write_source fs ?sp ?v = Inr fs1"
    by (cases "write_source fs ?sp ?v") (auto simp add: Let_def)
  note w' = w[unfolded script_name(1)[OF nm]]
  from write_source_resolves[OF w'] obtain dir where
    dir: "walk fs (start fs parent_path) (segments parent_path) = Inr dir" by blast
  from write_source_at[OF dir script_name(2)[OF nm] w'] obtain src where
    src: "?v = VStr src"
    and fs1: "fs1 = fs\<lparr>nodes := (nodes fs)(dir @ [nm @ ?ext] \<mapsto> File (Text src))\<rparr>" by blast
  have le1: "fs_le fs fs1" by (rule write_source_fs_le[OF w])
  have dir1: "walk fs1 (start fs1 parent_path) (segments parent_path) = Inr dir"
    by (rule walk_later[OF le1 dir])
  have pp: "path_parent ?sp = parent_path" by (rule script_path_parent[OF nm])
  from cs nm w assms(2) obtain fs2 where m: "create_meta_file i parent_path fs1 = Inr fs2"
    by (cases "create_meta_file i parent_path fs1") (auto simp add: Let_def pp)
  have nf: "inst_class i \<notin> set [''Folder'']" using assms(1) by (auto simp add: script_classes_def)
  from create_meta_file_at[OF dir1 m] nf nm obtain meta where
    meta: "meta_properties (properties i) [] = Inr meta"
    and fs2: "fs2 = fs1\<lparr>nodes := (nodes fs1)(dir @ [nm @ ''.meta.json''] \<mapsto>
                File (Json (JObj [(''className'', JVal (VStr (inst_class i))),
                                  (''properties'', JObj meta)])))\<rparr>"
    by auto
  have le2: "fs_le fs1 fs2" by (rule create_meta_file_fs_le[OF m])
  have dir2: "walk fs2 (start fs2 parent_path) (segments parent_path) = Inr dir"
    by (rule walk_later[OF le2 dir1])
  from cs nm w m assms(2) have sc: "script_children d insts nm (children i) parent_path fs2 = Inr fs'"
    by (simp add: Let_def pp)
  then obtain fs3 where e: "ensure_dir fs2 ?q True = Inr fs3"
    and pc: "process_children d insts (children i) ?q fs3 = Inr fs'"
    unfolding script_children_directory[OF assms(3)] by (auto split: sum.splits)
  have le3: "fs_le fs2 fs3" using ensure_dir_result[OF e] keeps_fs_le by blast
  have le4: "fs_le fs3 fs'" by (rule process_children_fs_le[OF pc])
  have le: "fs_le fs2 fs'" by (rule fs_le_trans[OF le3 le4])
  have "exists fs3 ?q" using ensure_dir_result[OF e] by simp
  then have ex: "exists fs' ?q" using exists_mono[OF le4] by simp
  have f1: "\<exists>c. nodes fs' (dir @ [nm @ ?ext]) = Some (File c)"
  proof -
    have "nodes fs2 (dir @ [nm @ ?ext]) = Some (File (Text src))"
      unfolding fs2 fs1 using script_extension_not_sidecar[of "inst_class i"] by simp
    then show ?thesis using le unfolding fs_le_def by blast
  qed
  have f2: "\<exists>c. nodes fs' (dir @ [nm @ ''.meta.json'']) = Some (File c)"
  proof -
    have "\<exists>c. nodes fs2 (dir @ [nm @ ''.meta.json'']) = Some (File c)" unfolding fs2 by simp
    then show ?thesis using le unfolding fs_le_def by blast
  qed
  have cond: "nodes fs' (dir @ [nm @ ?ext]) = Some (File (Text src)) \<and>
         nodes fs' (dir @ [nm @ ''.meta.json'']) =
           Some (File (Json (JObj [(''className'', JVal (VStr (inst_class i))),
                                   (''properties'', JObj meta)]))) \<and>
         nodes fs' (dir @ [nm]) =
           (case nodes fs (dir @ [nm]) of Some (File c) \<Rightarrow> Some (File c) | _ \<Rightarrow> Some Dir) \<and>
         (\<forall>l. nodes fs' l \<noteq> nodes fs l \<longrightarrow>
              l = dir @ [nm @ ?ext] \<or> l = dir @ [nm @ ''.meta.json''] \<or> (\<exists>r. l = dir @ nm # r))"
    if h: "nm \<noteq> ''.'' \<and> nm \<noteq> ''..'' \<and>
       (\<forall>c i'. map_of insts c = Some i' \<longrightarrow> normalize_value (instance_name i') \<noteq> Inr ''..'')"
  proof -
    have q: "?q = parent_path\<lparr>segments := segments parent_path @ [nm]\<rparr>"
      using path_div_name[OF normalize_value_no_slash[OF nm] normalize_value_nonempty[OF nm]] h
      by blast
    have st: "start fs3 (parent_path\<lparr>segments := segments parent_path @ [nm]\<rparr>) = start fs3 parent_path"
      by (simp add: start_def)
    have dir3: "walk fs3 (start fs3 parent_path) (segments parent_path) = Inr dir"
      by (rule walk_later[OF le3 dir2])
    have extne: "?ext \<noteq> []" using script_extension_long[of "inst_class i"] by auto
    have n2: "nodes fs2 (dir @ [nm]) = nodes fs (dir @ [nm])"
      unfolding fs2 fs1 using extne by simp
    from ensure_dir_child[OF dir2 _ e[unfolded q]] h
    have e3: "(fs3 = fs2 \<and> nodes fs2 (dir @ [nm]) \<noteq> None) \<or>
         (fs3 = fs2\<lparr>nodes := (nodes fs2)(dir @ [nm] \<mapsto> Dir)\<rparr> \<and> nodes fs2 (dir @ [nm]) = None)"
      by blast
    then have n3: "nodes fs3 (dir @ [nm]) =
        (case nodes fs (dir @ [nm]) of Some (File c) \<Rightarrow> Some (File c) | _ \<Rightarrow> Some Dir)"
      using n2 by (auto split: option.splits node.splits)
    have c23: "\<forall>l. nodes fs3 l \<noteq> nodes fs2 l \<longrightarrow> l = dir @ [nm]"
      using e3 by (auto split: if_splits)
    have c3: "\<forall>l. nodes fs' l \<noteq> nodes fs3 l \<longrightarrow> (\<exists>r. r \<noteq> [] \<and> l = dir @ nm # r)"
    proof (cases "nodes fs3 (dir @ [nm]) = Some Dir")
      case True
      have "walk fs3 (start fs3 ?q) (segments ?q) = Inr (dir @ [nm])"
        unfolding q st using dir3 True h by (simp add: walk_snoc)
      from below_process_children'[OF _ this pc] h
      have "changes_below (dir @ [nm]) fs3 fs'" by blast
      then show ?thesis by (simp add: changes_below_def)
    next
      case False
      then obtain c where "nodes fs3 (dir @ [nm]) = Some (File c)"
        using n3 by (auto split: option.splits node.splits)
      then have "walk fs3 (start fs3 ?q) (segments ?q) = Inl NotADirectoryError"
        unfolding q st using dir3 h by (simp add: walk_snoc)
      from unresolved_process_children'[OF this pc] show ?thesis by simp
    qed
    have a: "nodes fs' (dir @ [nm @ ?ext]) = Some (File (Text src))"
    proof -
      have "nodes fs' (dir @ [nm @ ?ext]) = nodes fs3 (dir @ [nm @ ?ext])"
        using c3 extne by auto
      also have "\<dots> = nodes fs2 (dir @ [nm @ ?ext])" using c23 extne by auto
      also have "\<dots> = Some (File (Text src))"
        unfolding fs2 fs1 using script_extension_not_sidecar[of "inst_class i"] by simp
      finally show ?thesis .
    qed
    have b: "nodes fs' (dir @ [nm @ ''.meta.json'']) =
           Some (File (Json (JObj [(''className'', JVal (VStr (inst_class i))),
                                   (''properties'', JObj meta)])))"
    proof -
      have "nodes fs' (dir @ [nm @ ''.meta.json'']) = nodes fs3 (dir @ [nm @ ''.meta.json''])"
        using c3 by auto
      also have "\<dots> = nodes fs2 (dir @ [nm @ ''.meta.json''])" using c23 by auto
      also have "\<dots> = Some (File (Json (JObj [(''className'', JVal (VStr (inst_class i))),
                                   (''properties'', JObj meta)])))"
        unfolding fs2 by simp
      finally show ?thesis .
    qed
    have c: "nodes fs' (dir @ [nm]) =
           (case nodes fs (dir @ [nm]) of Some (File c) \<Rightarrow> Some (File c) | _ \<Rightarrow> Some Dir)"
    proof -
      have "nodes fs' (dir @ [nm]) = nodes fs3 (dir @ [nm])" using c3 by auto
      then show ?thesis using n3 by simp
    qed
    have d: "\<forall>l. nodes fs' l \<noteq> nodes fs l \<longrightarrow>
              l = dir @ [nm @ ?ext] \<or> l = dir @ [nm @ ''.meta.json''] \<or> (\<exists>r. l = dir @ nm # r)"
    proof (intro allI impI)
      fix l
      assume l: "nodes fs' l \<noteq> nodes fs l"
      show "l = dir @ [nm @ ?ext] \<or> l = dir @ [nm @ ''.meta.json''] \<or> (\<exists>r. l = dir @ nm # r)"
      proof (cases "nodes fs' l = nodes fs3 l")
        case False
        then show ?thesis using c3 by blast
      next
        case True
        show ?thesis
        proof (cases "nodes fs3 l = nodes fs2 l")
          case False
          then have "l = dir @ [nm]" using c23 by blast
          then show ?thesis by blast
        next
          case same: True
          then have "nodes fs2 l \<noteq> nodes fs l" using True l by simp
          then show ?thesis unfolding fs2 fs1 by (auto split: if_splits)
        qed
      qed
    qed
    from a b c d show ?thesis by blast
  qed
  have w2: "write_source fs ?sp (VStr src) = Inr fs1" using w src by simp
  from nm src meta dir w2 fs1 m fs2 e pc ex f1 f2 cond show ?thesis by blast
qed

theorem script_with_children_emission_witness:
  "\<exists>fs'. process_instance 3
        [(''M'', \<lparr>inst_class = ''ModuleScript'', referent = ''M'',
                  properties = [(Some ''Name'', VStr ''Mod''), (Some ''Source'', VStr ''return 1'')],
                  children = [''F''], parent = None\<rparr>),
         (''F'', \<lparr>inst_class = ''Folder'', referent = ''F'',
                  properties = [(Some ''Name'', VStr ''Sub'')], children = [],
                  parent = Some ''M''\<rparr>)]
        \<lparr>inst_class = ''ModuleScript'', referent = ''M'',
          properties = [(Some ''Name'', VStr ''Mod''), (Some ''Source'', VStr ''return 1'')],
          children = [''F''], parent = None\<rparr>
        \<lparr>absolute = False, segments = [''out'']\<rparr> False
        (\<lparr>nodes = [[''out''] \<mapsto> Dir], cwd = []\<rparr> :: real content fs) = Inr fs'
     \<and> exists fs' \<lparr>absolute = False, segments = [''out'', ''Mod'']\<rparr>
     \<and> nodes fs' [''out'', ''Mod.lua''] = Some (File (Text ''return 1''))
     \<and> nodes fs' [''out'', ''Mod.meta.json''] =
         Some (File (Json (JObj [(''className'', JVal (VStr ''ModuleScript'')),
                                 (''properties'', JObj [])])))
     \<and> nodes fs' [''out'', ''Mod''] = Some Dir"
proof -
  let ?m = "\<lparr>inst_class = ''ModuleScript'', referent = ''M'',
          properties = [(Some ''Name'', VStr ''Mod''), (Some ''Source'', VStr ''return 1'')],
          children = [''F''], parent = None\<rparr> :: real inst"
  let ?f = "\<lparr>inst_class = ''Folder'', referent = ''F'',
                  properties = [(Some ''Name'', VStr ''Sub'')], children = [],
                  parent = Some ''M''\<rparr> :: real inst"
  let ?insts = "[(''M'', ?m), (''F'', ?f)]"
  let ?out = "\<lparr>absolute = False, segments = [''out'']\<rparr>"
  let ?fs = "\<lparr>nodes = [[''out''] \<mapsto> Dir], cwd = []\<rparr> :: real content fs"
  have "\<exists>fs'. process_instance (Suc (Suc (Suc 0))) ?insts ?m ?out False ?fs = Inr fs'"
    by (simp add: fs_eval)
  then obtain fs' where ok: "process_instance (Suc (Suc (Suc 0))) ?insts ?m ?out False ?fs = Inr fs'"
    by blast
  have 1: "inst_class ?m \<in> set script_classes" by (simp add: script_classes_def)
  have 2: "children ?m \<noteq> []" by simp
  have 3: "\<exists>c \<in> set (children ?m). map_of ?insts c \<noteq> None" by simp
  from script_with_children_emission[OF 1 2 3 ok] obtain nm src meta dir where
    n: "normalize_value (instance_name ?m) = Inr nm"
    and s: "(case map_of (properties ?m) (Some ''Source'') of Some v \<Rightarrow> v | None \<Rightarrow> VStr [])
              = VStr src"
    and m: "meta_properties (properties ?m) [] = Inr meta"
    and d: "walk ?fs (start ?fs ?out) (segments ?out) = Inr dir"
    and e: "exists fs' (path_div ?out nm)"
    and c: "nm \<noteq> ''.'' \<and> nm \<noteq> ''..'' \<and>
       (\<forall>c i'. map_of ?insts c = Some i' \<longrightarrow> normalize_value (instance_name i') \<noteq> Inr ''..'') \<longrightarrow>
         nodes fs' (dir @ [nm @ script_extension (inst_class ?m)]) = Some (File (Text src)) \<and>
         nodes fs' (dir @ [nm @ ''.meta.json'']) =
           Some (File (Json (JObj [(''className'', JVal (VStr (inst_class ?m))),
                                   (''properties'', JObj meta)]))) \<and>
         nodes fs' (dir @ [nm]) =
           (case nodes ?fs (dir @ [nm]) of Some (File c) \<Rightarrow> Some (File c) | _ \<Rightarrow> Some Dir)"
    by blast
  have "normalize_value (instance_name ?m) = Inr ''Mod''" by (simp add: fs_eval)
  with n have nm: "nm = ''Mod''" by simp
  have src: "src = ''return 1''" using s by simp
  have meta: "meta = []" using m
    by (simp add: included_property_def py_startswith_def py_endswith_def important_properties_def)
  have dir: "dir = [''out'']" using d by (simp add: start_def)
  have names: "\<forall>c i'. map_of ?insts c = Some i' \<longrightarrow> normalize_value (instance_name i') \<noteq> Inr ''..''"
    by (auto simp add: fs_eval split: if_splits)
  have p: "path_div ?out ''Mod'' = \<lparr>absolute = False, segments = [''out'', ''Mod'']\<rparr>"
    by (simp add: path_div_def)
  have x: "script_extension (inst_class ?m) = ''.lua''" by (simp add: script_extension_def)
  from c names have
    "nodes fs' ([''out''] @ [''Mod'' @ ''.lua'']) = Some (File (Text ''return 1'')) \<and>
     nodes fs' ([''out''] @ [''Mod'' @ ''.meta.json'']) =
           Some (File (Json (JObj [(''className'', JVal (VStr ''ModuleScript'')),
                                   (''properties'', JObj [])]))) \<and>
     nodes fs' ([''out''] @ [''Mod'']) = Some Dir"
    unfolding nm src meta dir x by simp
  then show ?thesis using ok e unfolding nm p by (auto simp add: eval_nat_numeral)
qed

text \<open>
  C8. Emission is idempotent: when a run of the emitter completes and produces a file
  system, a second run over it, with the same game data and output directory, completes
  and leaves that file system as it is, with every directory and every file content.
\<close>

theorem emission_idempotent:
  assumes "generate_project limit game_data output_dir fs = Inr fs'"
  shows "generate_project limit game_data output_dir fs' = Inr fs'"
proof -
  from planned_generate_project[of limit game_data output_dir] obtain plan where
    "\<And>fs. generate_project limit game_data output_dir fs = run_plan plan fs"
    unfolding planned_def by blast
  then show ?thesis using assms run_plan_idempotent[of plan fs fs'] by simp
qed

theorem emission_idempotent_witness:
  "\<exists>fs'. generate_project 3
       \<lparr>name = VStr ''Place'',
        instances =
          [(''P'', \<lparr>inst_class = ''Part'', referent = ''P'',
                    properties = [(Some ''Name'', VStr ''Baseplate''), (Some ''Anchored'', VBool True)],
                    children = [], parent = Some ''W''\<rparr>),
           (''W'', \<lparr>inst_class = ''Workspace'', referent = ''W'',
                    properties = [(Some ''Name'', VStr ''Workspace'')],
                    children = [''P''], parent = None\<rparr>),
           (''S'', \<lparr>inst_class = ''Script'', referent = ''S'',
                    properties = [(Some ''Name'', VStr ''Main''), (Some ''Source'', VStr ''print(1)'')],
                    children = [], parent = None\<rparr>)],
        root_instances = [''W'', ''S'']\<rparr>
       \<lparr>absolute = False, segments = [''out'']\<rparr>
       (\<lparr>nodes = [[''out''] \<mapsto> Dir], cwd = []\<rparr> :: real content fs) = Inr fs'
     \<and> generate_project 3
       \<lparr>name = VStr ''Place'',
        instances =
          [(''P'', \<lparr>inst_class = ''Part'', referent = ''P'',
                    properties = [(Some ''Name'', VStr ''Baseplate''), (Some ''Anchored'', VBool True)],
                    children = [], parent = Some ''W''\<rparr>),
           (''W'', \<lparr>inst_class = ''Workspace'', referent = ''W'',
                    properties = [(Some ''Name'', VStr ''Workspace'')],
                    children = [''P''], parent = None\<rparr>),
           (''S'', \<lparr>inst_class = ''Script'', referent = ''S'',
                    properties = [(Some ''Name'', VStr ''Main''), (Some ''Source'', VStr ''print(1)'')],
                    children = [], parent = None\<rparr>)],
        root_instances = [''W'', ''S'']\<rparr>
       \<lparr>absolute = False, segments = [''out'']\<rparr> fs' = Inr fs'"
proof -
  define gd :: "real game_data" where "gd =
       \<lparr>name = VStr ''Place'',
        instances =
          [(''P'', \<lparr>inst_class = ''Part'', referent = ''P'',
                    properties = [(Some ''Name'', VStr ''Baseplate''), (Some ''Anchored'', VBool True)],
                    children = [], parent = Some ''W''\<rparr>),
           (''W'', \<lparr>inst_class = ''Workspace'', referent = ''W'',
                    properties = [(Some ''Name'', VStr ''Workspace'')],
                    children = [''P''], parent = None\<rparr>),
           (''S'', \<lparr>inst_class = ''Script'', referent = ''S'',
                    properties = [(Some ''Name'', VStr ''Main''), (Some ''Source'', VStr ''print(1)'')],
                    children = [], parent = None\<rparr>)],
        root_instances = [''W'', ''S'']\<rparr>"
  define manifest where "manifest = Json (JObj [(''name'', JVal (name gd)),
                          (''tree'', json_of_ptree (PObj project_tree))])"
  have j: "\<And>out fs. generate_project_json gd out fs =
     (case write_file fs (path_div out ''default.project.json'') manifest of
        Inl e \<Rightarrow> Inl e
      | Inr fs1 \<Rightarrow> create_standard_directories project_tree out fs1)"
    by (simp add: generate_project_json_def manifest_def)
  have "\<exists>fs'. generate_project 3 gd \<lparr>absolute = False, segments = [''out'']\<rparr>
       (\<lparr>nodes = [[''out''] \<mapsto> Dir], cwd = []\<rparr> :: real content fs) = Inr fs'"
    unfolding generate_project_def j by (simp add: fs_eval gd_def)
  then obtain fs' where ok: "generate_project 3 gd \<lparr>absolute = False, segments = [''out'']\<rparr>
       (\<lparr>nodes = [[''out''] \<mapsto> Dir], cwd = []\<rparr> :: real content fs) = Inr fs'" by blast
  from emission_idempotent[OF ok] ok show ?thesis unfolding gd_def by blast
qed


section \<open>Further properties of the normalizer and the decoder\<close>

lemma underscore_valid: "CHR ''_'' \<in> set valid_chars"
  by (simp add: valid_chars_def)

text \<open>
  The normalizer returns a non-empty name made of letters, digits and the characters
  \<open>-_.() \<close> only.
\<close>

theorem normalize_name_charset:
  "normalize_name s \<noteq> [] \<and> set (normalize_name s) \<subseteq> set valid_chars"
proof -
  let ?m = "map (\<lambda>c. if c \<in> set valid_chars then c else CHR ''_'') s"
  let ?n = "strip_where py_isspace (strip_where (\<lambda>c. c = CHR ''_'') ?m)"
  have "set ?m \<subseteq> set valid_chars" using underscore_valid by auto
  then have n: "set ?n \<subseteq> set valid_chars"
    using set_strip_where[of py_isspace "strip_where (\<lambda>c. c = CHR ''_'') ?m"]
      set_strip_where[of "\<lambda>c. c = CHR ''_''" ?m] by blast
  have u: "set ''unnamed'' \<subseteq> set valid_chars" by (simp add: valid_chars_def)
  show ?thesis
  proof (cases "?n = []")
    case True
    then have "normalize_name s = ''unnamed''" by (simp add: normalize_name_def Let_def)
    then show ?thesis using u by simp
  next
    case False
    then have "normalize_name s = ?n" by (simp add: normalize_name_def Let_def)
    then show ?thesis using n False by simp
  qed
qed

text \<open>
  The two base64 string variants never raise: an absent or empty text decodes to the
  empty string, and a text that does not decode is returned as it is.
\<close>

theorem base64_failure_falls_back_to_text:
  assumes "xtag e = ''BinaryString'' \<or> xtag e = ''ProtectedString''"
  shows "extract_property_value L e =
     Inr (VStr (case xtext e of None \<Rightarrow> []
                | Some s \<Rightarrow> if s = [] then []
                    else (case b64decode_utf8 L s of Some decoded \<Rightarrow> decoded | None \<Rightarrow> s)))"
  using assms
  by (auto simp add: extract_property_value_def decode_base64_def split: option.splits)

theorem base64_failure_falls_back_to_text_witness:
  "extract_property_value digits_lib
     (Elem ''ProtectedString'' [(''name'', ''Source'')] (Some ''print(1)'') [])
   = Inr (VStr ''print(1)'')"
  using base64_failure_falls_back_to_text
          [of "Elem ''ProtectedString'' [(''name'', ''Source'')] (Some ''print(1)'') []" digits_lib]
  by (simp add: digits_lib_def)

text \<open>
  A vector element decodes to the two keys \<open>X\<close>, \<open>Y\<close> when it is 2-component or has no \<open>Z\<close>
  sub-element, and to the three keys \<open>X\<close>, \<open>Y\<close>, \<open>Z\<close> when it is 3-component and has one.
\<close>

theorem vector_decode_components:
  assumes "xtag e = ''Vector2'' \<or> xtag e = ''Vector3''"
    and "float_or_zero L (xfind e ''X'') = Inr xv"
    and "float_or_zero L (xfind e ''Y'') = Inr yv"
  shows "(xtag e = ''Vector2'' \<or> xfind e ''Z'' = None \<longrightarrow>
            extract_property_value L e = Inr (VDict [(''X'', xv), (''Y'', yv)])) \<and>
         (\<forall>z zv. xtag e = ''Vector3'' \<and> xfind e ''Z'' = Some z \<and>
            float_of_text L (xtext z) = Inr zv \<longrightarrow>
            extract_property_value L e = Inr (VDict [(''X'', xv), (''Y'', yv), (''Z'', zv)]))"
  using assms
  by (auto simp add: extract_property_value_def bind_err_def Let_def split: option.splits)

theorem vector_decode_components_witness:
  "extract_property_value digits_lib
     (Elem ''Vector3'' [(''name'', ''Size'')] None
        [Elem ''X'' [] (Some ''4'') [], Elem ''Y'' [] (Some ''1'') []])
   = Inr (VDict [(''X'', VFloat 4), (''Y'', VFloat 1)])
   \<and> extract_property_value digits_lib
     (Elem ''Vector3'' [(''name'', ''Size'')] None
        [Elem ''X'' [] (Some ''4'') [], Elem ''Y'' [] (Some ''1'') [], Elem ''Z'' [] (Some ''2'') []])
   = Inr (VDict [(''X'', VFloat 4), (''Y'', VFloat 1), (''Z'', VFloat 2)])"
  using vector_decode_components
          [of "Elem ''Vector3'' [(''name'', ''Size'')] None
                 [Elem ''X'' [] (Some ''4'') [], Elem ''Y'' [] (Some ''1'') []]"
              digits_lib "VFloat 4" "VFloat 1"]
        vector_decode_components
          [of "Elem ''Vector3'' [(''name'', ''Size'')] None
                 [Elem ''X'' [] (Some ''4'') [], Elem ''Y'' [] (Some ''1'') [],
                  Elem ''Z'' [] (Some ''2'') []]"
              digits_lib "VFloat 4" "VFloat 1"]
  by (simp add: xfind_def float_or_zero_def float_of_text_def digits_lib_def)

end
